theory Spec2Isabelle
  imports
    Complex_Main
    "HOL-Library.AList"
    "HOL-Library.Sublist"
    "HOL-Library.List_Lexorder"
    "HOL-Library.Char_ord"
begin

section \<open>The management command \<open>update_steam_sales\<close>\<close>

text \<open>
  The theory embeds \<open>Command.handle\<close> of
  \<open>users/management/commands/update_steam_sales.py\<close>: the paginated fetch loop, the
  per-record scam filter and classification, the construction of the snapshot and the
  two file writes.
\<close>

subsection \<open>JSON values and Python's operators on them\<close>

text \<open>
  A sale record is a JSON object. Its fields hold \<open>null\<close>, a number or a string (the
  record shape of the data model); booleans, arrays and nested objects as field values
  are outside this value type. A number is modelled by the rational it denotes, so an
  integer and a float of the same value are the same \<open>PNum\<close>, as Python's \<open>==\<close> and
  ordering treat them; the float literals \<open>0.9\<close>, \<open>0.95\<close> and \<open>0.5\<close> of the source are
  the rationals \<open>9/10\<close>, \<open>19/20\<close> and \<open>1/2\<close>. NaN and the infinities are not modelled.
  A string is a list of bytes (UTF-8), whose lexicographic order is the order of
  Python's code points.
\<close>

datatype pyval = PNone | PNum rat | PStr string

type_synonym item = "string \<rightharpoonup> pyval"

datatype error = TypeError | AttributeError | IOError | CommandError | UnicodeEncodeError

text \<open>\<open>item.get(k)\<close> and \<open>item.get(k, d)\<close>.\<close>

definition item_get :: "item \<Rightarrow> string \<Rightarrow> pyval" where
  "item_get item k = (case item k of None \<Rightarrow> PNone | Some v \<Rightarrow> v)"

definition item_get_default :: "item \<Rightarrow> string \<Rightarrow> pyval \<Rightarrow> pyval" where
  "item_get_default item k d = (case item k of None \<Rightarrow> d | Some v \<Rightarrow> v)"

text \<open>Truth value testing, and \<open>a or b\<close> on values.\<close>

fun truthy :: "pyval \<Rightarrow> bool" where
  "truthy PNone = False"
| "truthy (PNum r) = (r \<noteq> 0)"
| "truthy (PStr s) = (s \<noteq> [])"

definition py_or :: "pyval \<Rightarrow> pyval \<Rightarrow> pyval" where
  "py_or a b = (if truthy a then a else b)"

text \<open>
  The ordering operators: numbers compare with numbers and strings with strings; every
  other pair of operands raises \<open>TypeError\<close>.
\<close>

fun py_lt :: "pyval \<Rightarrow> pyval \<Rightarrow> error + bool" where
  "py_lt (PNum a) (PNum b) = Inr (a < b)"
| "py_lt (PStr a) (PStr b) = Inr (a < b)"
| "py_lt _ _ = Inl TypeError"

fun py_gt :: "pyval \<Rightarrow> pyval \<Rightarrow> error + bool" where
  "py_gt (PNum a) (PNum b) = Inr (a > b)"
| "py_gt (PStr a) (PStr b) = Inr (a > b)"
| "py_gt _ _ = Inl TypeError"

fun py_ge :: "pyval \<Rightarrow> pyval \<Rightarrow> error + bool" where
  "py_ge (PNum a) (PNum b) = Inr (a \<ge> b)"
| "py_ge (PStr a) (PStr b) = Inr (a \<ge> b)"
| "py_ge _ _ = Inl TypeError"

text \<open>
  \<open>str.lower\<close>; any other value has no such attribute. Lowering is modelled on the
  ASCII letters, every other byte is kept.
\<close>

definition lower_char :: "char \<Rightarrow> char" where
  "lower_char c =
     (case map_of (zip ''ABCDEFGHIJKLMNOPQRSTUVWXYZ'' ''abcdefghijklmnopqrstuvwxyz'') c of
        Some l \<Rightarrow> l
      | None \<Rightarrow> c)"

fun py_lower :: "pyval \<Rightarrow> error + string" where
  "py_lower (PStr s) = Inr (map lower_char s)"
| "py_lower _ = Inl AttributeError"

text \<open>
  Sequencing of computations that may raise: \<open>bind\<close> passes a result on, \<open>py_and\<close> is
  the short-circuit \<open>and\<close> of two conditions, \<open>py_or_else\<close> the short-circuit \<open>or\<close>,
  and \<open>py_if\<close> a conditional whose condition may raise.
\<close>

definition bind :: "error + 'a \<Rightarrow> ('a \<Rightarrow> error + 'b) \<Rightarrow> error + 'b" where
  "bind m f = (case m of Inl e \<Rightarrow> Inl e | Inr x \<Rightarrow> f x)"

definition py_and :: "error + bool \<Rightarrow> error + bool \<Rightarrow> error + bool" where
  "py_and a b = (case a of Inl e \<Rightarrow> Inl e | Inr c \<Rightarrow> if c then b else Inr False)"

definition py_or_else :: "error + bool \<Rightarrow> error + bool \<Rightarrow> error + bool" where
  "py_or_else a b = (case a of Inl e \<Rightarrow> Inl e | Inr c \<Rightarrow> if c then Inr True else b)"

definition py_if :: "error + bool \<Rightarrow> error + 'a \<Rightarrow> error + 'a \<Rightarrow> error + 'a" where
  "py_if c a b = (case c of Inl e \<Rightarrow> Inl e | Inr t \<Rightarrow> if t then a else b)"

subsection \<open>The fetch loop (lines 45 to 95)\<close>

text \<open>
  The remote API is a function from the page number and the page size to what one
  iteration of the \<open>try\<close> block observes: \<open>Raises\<close> when \<open>requests.get\<close>,
  \<open>response.json()\<close> or anything else in the block raises (both \<open>except\<close> clauses
  break out of the loop), and otherwise the status code with \<open>data.get('list', [])\<close>.
  The loop state is the pair of \<open>all_sales\<close> and \<open>page\<close>. The progress messages and
  the pause between two requests are left out.
\<close>

datatype response = Raises | Response int "item list"

function fetch_loop ::
  "(int \<Rightarrow> int \<Rightarrow> response) \<Rightarrow> int \<Rightarrow> int \<Rightarrow> item list \<times> int \<Rightarrow> item list \<times> int"
where
  "fetch_loop api target_count batch_size (all_sales, page) =
     (if int (length all_sales) < target_count then
        (case api page batch_size of
           Raises \<Rightarrow> (all_sales, page)
         | Response status_code items \<Rightarrow>
             if status_code \<noteq> 200 then (all_sales, page)
             else if items = [] then (all_sales, page)
             else fetch_loop api target_count batch_size (all_sales @ items, page + 1))
      else (all_sales, page))"
  by pat_completeness auto
termination
  by (relation "measure (\<lambda>(api, target_count, batch_size, all_sales, page).
        nat (target_count - int (length all_sales)))") auto

subsection \<open>The scam filter (lines 104 to 138)\<close>

definition scam_keywords :: "string list" where
  "scam_keywords = [''puzzle pack'', ''dlc bundle'', ''soundtrack'', ''ost'', ''artbook'']"

text \<open>
  The five checks of the loop body, in the order of the source; \<open>Inr True\<close> is the
  path through \<open>skipped_scam += 1; continue\<close>, \<open>Inr False\<close> reaches the end of the
  filter, and \<open>Inl\<close> is an exception raised by one of the comparisons or by
  \<open>.lower()\<close>. The title is lowered before the fifth condition is looked at,
  whatever the discount rate.
\<close>

definition scam_filter :: "item \<Rightarrow> error + bool" where
  "scam_filter item =
     (let discount_rt = py_or (item_get item ''discount_rt'') (PNum 0);
          sale_price = py_or (item_get item ''sale_price_va'') (PNum 0);
          full_price = py_or (item_get item ''full_price_va'') (PNum 0);
          sale_count = item_get_default item ''sale_cn'' (PNum 0)
      in
        py_if (py_gt discount_rt (PNum 1)) (Inr True)
       (py_if (py_gt full_price (PNum 500000)) (Inr True)
       (py_if (py_and (py_ge discount_rt (PNum (9/10))) (py_gt sale_price (PNum 30000)))
          (Inr True)
       (py_if (py_and (py_lt sale_count (PNum 3)) (py_ge discount_rt (PNum (19/20))))
          (Inr True)
       (bind (py_lower (item_get_default item ''title_nm'' (PStr ''''))) (\<lambda>title.
        py_if (py_and (py_ge discount_rt (PNum (19/20)))
                 (Inr (list_ex (\<lambda>kw. sublist kw title) scam_keywords)))
          (Inr True)
          (Inr False)))))))"

subsection \<open>Classification (lines 97 to 164)\<close>

text \<open>
  \<open>game_info\<close> is the dictionary built at line 141; \<open>is_best_price\<close> is the key that
  only the entries of \<open>best_prices\<close> carry (\<open>False\<close> stands for its absence).
\<close>

record game_info =
  game_id :: pyval
  title :: pyval
  current_price :: pyval
  original_price :: pyval
  discount_rate :: pyval
  thumbnail :: pyval
  store_link :: pyval
  end_date :: pyval
  sale_count :: pyval
  is_best_price :: bool

text \<open>
  The accumulators of the loop. \<open>best_prices\<close> is a Python dictionary: an association
  list in insertion order, in which an assignment to a key already present replaces
  the value in place (\<open>AList.update\<close>).
\<close>

record state =
  current_sales :: "game_info list"
  best_prices :: "(pyval \<times> game_info) list"
  skipped_scam :: nat

definition init_state :: state where
  "init_state = \<lparr>current_sales = [], best_prices = [], skipped_scam = 0\<rparr>"

definition make_game_info :: "item \<Rightarrow> game_info" where
  "make_game_info item =
     \<lparr>game_id = item_get item ''game_id'',
      title = item_get item ''title_nm'',
      current_price = py_or (item_get item ''sale_price_va'') (PNum 0),
      original_price = py_or (item_get item ''full_price_va'') (PNum 0),
      discount_rate = py_or (item_get item ''discount_rt'') (PNum 0),
      thumbnail = item_get item ''img_lk'',
      store_link = item_get item ''store_lk'',
      end_date = py_or (item_get item ''end_dt'') (PStr ''''),
      sale_count = item_get_default item ''sale_cn'' (PNum 0),
      is_best_price = False\<rparr>"

text \<open>Lines 154 and 155: the record is a current sale.\<close>

definition is_current :: "string \<Rightarrow> game_info \<Rightarrow> error + bool" where
  "is_current today g =
     py_and (py_or_else (py_ge (end_date g) (PStr today)) (Inr (end_date g = PStr '''')))
       (py_and (Inr (truthy (discount_rate g))) (py_gt (discount_rate g) (PNum 0)))"

text \<open>Lines 159 and 160: the record is a new best price of its game.\<close>

definition is_new_best :: "(pyval \<times> game_info) list \<Rightarrow> game_info \<Rightarrow> error + bool" where
  "is_new_best bp g =
     py_and (py_and (Inr (truthy (game_id g)))
               (py_and (Inr (truthy (current_price g))) (py_gt (current_price g) (PNum 0))))
       (case map_of bp (game_id g) of
          None \<Rightarrow> Inr True
        | Some b \<Rightarrow> py_lt (current_price g) (current_price b))"

text \<open>
  Lines 156 and 161: the record is appended to \<open>current_sales\<close> when it is current,
  and stored under its \<open>game_id\<close>, tagged \<open>is_best_price\<close>, when it is a new best
  price.
\<close>

definition store :: "state \<Rightarrow> game_info \<Rightarrow> bool \<Rightarrow> bool \<Rightarrow> state" where
  "store st g cur best =
     st\<lparr>current_sales := (if cur then current_sales st @ [g] else current_sales st),
        best_prices :=
          (if best then AList.update (game_id g) (g\<lparr>is_best_price := True\<rparr>) (best_prices st)
           else best_prices st)\<rparr>"

text \<open>One iteration of the loop of line 103.\<close>

definition process_item :: "string \<Rightarrow> item \<Rightarrow> state \<Rightarrow> error + state" where
  "process_item today item st =
     bind (scam_filter item) (\<lambda>scam.
       if scam then Inr (st\<lparr>skipped_scam := skipped_scam st + 1\<rparr>)
       else
         (let g = make_game_info item in
          bind (is_current today g) (\<lambda>cur.
          bind (is_new_best (best_prices st) g) (\<lambda>best.
            Inr (store st g cur best)))))"

fun classify_loop :: "string \<Rightarrow> item list \<Rightarrow> state \<Rightarrow> error + state" where
  "classify_loop today [] st = Inr st"
| "classify_loop today (item # items) st =
     bind (process_item today item st) (classify_loop today items)"

subsection \<open>Sorting, filtering and slicing (lines 168 to 186)\<close>

text \<open>
  \<open>xs.sort(key=..., reverse=True)\<close>: a stable sort in descending order of the keys,
  elements with equal keys staying in their original order (the list is reversed,
  sorted stably in ascending order and reversed again). The keys are compared with
  \<open><\<close>: a list of at least two elements is sorted when its keys are all numbers or
  all strings, and raises \<open>TypeError\<close> otherwise; a list of at most one element needs
  no comparison. In a run the keys are always numbers, since every stored record has
  passed the comparisons of the filter (\<open>build_result_total\<close> below).
\<close>

fun is_number :: "pyval \<Rightarrow> bool" where
  "is_number (PNum r) = True"
| "is_number _ = False"

fun is_string :: "pyval \<Rightarrow> bool" where
  "is_string (PStr s) = True"
| "is_string _ = False"

fun num_val :: "pyval \<Rightarrow> rat" where
  "num_val (PNum r) = r"
| "num_val _ = 0"

fun str_val :: "pyval \<Rightarrow> string" where
  "str_val (PStr s) = s"
| "str_val _ = []"

definition py_sort_desc :: "('a \<Rightarrow> pyval) \<Rightarrow> 'a list \<Rightarrow> error + 'a list" where
  "py_sort_desc key xs =
     (if length xs \<le> 1 then Inr xs
      else if list_all (\<lambda>x. is_number (key x)) xs
        then Inr (rev (sort_key (\<lambda>x. num_val (key x)) (rev xs)))
      else if list_all (\<lambda>x. is_string (key x)) xs
        then Inr (rev (sort_key (\<lambda>x. str_val (key x)) (rev xs)))
      else Inl TypeError)"

text \<open>A list comprehension \<open>[g for g in xs if p(g)]\<close> whose condition may raise.\<close>

fun py_filter :: "('a \<Rightarrow> error + bool) \<Rightarrow> 'a list \<Rightarrow> error + 'a list" where
  "py_filter p [] = Inr []"
| "py_filter p (x # xs) =
     bind (p x) (\<lambda>b. bind (py_filter p xs) (\<lambda>ys. Inr (if b then x # ys else ys)))"

text \<open>The slice \<open>xs[:n]\<close>; a negative \<open>n\<close> counts from the end.\<close>

definition py_slice_to :: "int \<Rightarrow> 'a list \<Rightarrow> 'a list" where
  "py_slice_to n xs =
     (if n < 0 then take (length xs - nat (- n)) xs else take (nat n) xs)"

subsection \<open>The snapshot (lines 168 to 193)\<close>

text \<open>
  \<open>result\<close> is the dictionary of line 182, its \<open>stats\<close> flattened into four fields; the
  views of the snapshot are prefixed with \<open>snap\<close> to tell them from the accumulators.
\<close>

record result =
  updated_at :: string
  snap_current_sales :: "game_info list"
  snap_top_sales :: "game_info list"
  snap_best_prices :: "game_info list"
  total_fetched :: nat
  current_count :: nat
  top_count :: nat
  best_prices_count :: nat

definition discount_key :: "game_info \<Rightarrow> pyval" where
  "discount_key x = py_or (discount_rate x) (PNum 0)"

definition sale_count_key :: "game_info \<Rightarrow> pyval" where
  "sale_count_key x = py_or (sale_count x) (PNum 0)"

text \<open>
  Lines 168 to 193. \<open>current_sorted\<close> is \<open>current_sales\<close> after the sort in place
  of line 169; it is also the second component of the result, which the legacy file
  is cut from.
\<close>

definition build_result ::
  "string \<Rightarrow> item list \<Rightarrow> state \<Rightarrow> error + (result \<times> game_info list)"
where
  "build_result now all_sales st =
     bind (py_sort_desc discount_key (current_sales st)) (\<lambda>current_sorted.
     bind (py_filter (\<lambda>g. py_ge (discount_key g) (PNum (1/2))) current_sorted) (\<lambda>popular.
     bind (py_sort_desc sale_count_key popular) (\<lambda>popular_sales.
     (let top_sales = take 50 popular_sales in
     bind (py_sort_desc discount_key (map snd (best_prices st))) (\<lambda>best_prices_list.
       Inr (\<lparr>updated_at = now,
             snap_current_sales = take 500 current_sorted,
             snap_top_sales = take 50 top_sales,
             snap_best_prices = take 200 best_prices_list,
             total_fetched = length all_sales,
             current_count = length current_sorted,
             top_count = length top_sales,
             best_prices_count = length best_prices_list\<rparr>,
            current_sorted))))))"

subsection \<open>Writing the files (lines 195 to 221)\<close>

text \<open>
  The file system maps a path to the content of the file. \<open>open(path, 'w')\<close> either
  raises and leaves the file as it was, or truncates the file; \<open>json.dump\<close> then writes
  the document piece by piece into it. A file is \<open>Whole\<close> when a document was written
  completely, and \<open>Torn\<close> when the write raised after the file was truncated: it then
  holds a proper prefix, possibly empty, of the text of the document.

  What happens to a write is given by a \<open>fault\<close>: the \<open>open\<close> raises \<open>IOError\<close>
  (\<open>Open_fails\<close>), the write into the opened file raises \<open>IOError\<close> (\<open>Write_fails\<close>),
  or \<open>json.dump\<close> raises an exception that is not an \<open>IOError\<close> (\<open>Dump_raises\<close>). The
  last happens when a string of the document cannot be encoded: a title with a lone
  surrogate, which the parsed response may hold and the byte strings of this model do
  not represent, raises \<open>UnicodeEncodeError\<close> after the file was truncated. As the two
  documents hold different records, each write has a fault of its own.
\<close>

datatype payload = Snapshot result | Legacy "game_info list"

datatype file_content = Whole payload | Torn payload

type_synonym fs = "string \<rightharpoonup> file_content"

datatype fault = No_fault | Open_fails | Write_fails | Dump_raises

definition write_file :: "fault \<Rightarrow> string \<Rightarrow> payload \<Rightarrow> fs \<Rightarrow> (error + unit) \<times> fs" where
  "write_file flt path doc files =
     (case flt of
        Open_fails \<Rightarrow> (Inl IOError, files)
      | Write_fails \<Rightarrow> (Inl IOError, files(path \<mapsto> Torn doc))
      | Dump_raises \<Rightarrow> (Inl UnicodeEncodeError, files(path \<mapsto> Torn doc))
      | No_fault \<Rightarrow> (Inr (), files(path \<mapsto> Whole doc)))"

text \<open>
  What the run does to the outside, in order: the line with the number of filtered
  records, each \<open>open\<close> of a file for writing, and the messages of the two writes.
  \<open>Log_complete\<close> stands for the six lines that follow the first write.
\<close>

datatype event =
    Log_filtered nat
  | Open_for_writing string
  | Log_complete
  | Log_legacy_updated
  | Warn_legacy_failed

text \<open>
  A message is written to the standard output of the command, and the write raises
  when the stream does: \<open>IOError\<close> when the reader of the stream has closed it,
  \<open>UnicodeEncodeError\<close> when the encoding of the stream has no code for a character of
  the message. The environment gives the exception that each message of the two \<open>try\<close>
  blocks raises, if any.
\<close>

record env =
  env_api :: "int \<Rightarrow> int \<Rightarrow> response"
  env_today :: string
  env_now :: string
  base_dir :: string
  primary_fault :: fault
  legacy_fault :: fault
  stdout_fault :: "event \<Rightarrow> error option"

definition file_path :: "env \<Rightarrow> string" where
  "file_path e = base_dir e @ ''/users/steam_sale_data.json''"

definition legacy_path :: "env \<Rightarrow> string" where
  "legacy_path e = base_dir e @ ''/users/steam_sale_dataset_fast.json''"

text \<open>\<open>self.stdout.write\<close>: a message that raises is not among the events.\<close>

definition say :: "env \<Rightarrow> event \<Rightarrow> (error + unit) \<times> event list" where
  "say e m = (case stdout_fault e m of None \<Rightarrow> (Inr (), [m]) | Some err \<Rightarrow> (Inl err, []))"

text \<open>
  The body of the first \<open>try\<close> block (lines 199 to 209): the write of the snapshot,
  then the six lines, of which the first that raises ends the block.
\<close>

definition write_primary :: "env \<Rightarrow> result \<Rightarrow> fs \<Rightarrow> (error + unit) \<times> fs \<times> event list" where
  "write_primary e res files =
     (case write_file (primary_fault e) (file_path e) (Snapshot res) files of
        (Inl err, files1) \<Rightarrow> (Inl err, files1, [Open_for_writing (file_path e)])
      | (Inr u, files1) \<Rightarrow>
          (case say e Log_complete of
             (r, evs) \<Rightarrow> (r, files1, Open_for_writing (file_path e) # evs)))"

text \<open>
  The body of the second \<open>try\<close> block (lines 217 to 219): the write of the legacy
  list, then its message.
\<close>

definition write_legacy ::
  "env \<Rightarrow> int \<Rightarrow> game_info list \<Rightarrow> fs \<Rightarrow> (error + unit) \<times> fs \<times> event list"
where
  "write_legacy e target_count current files =
     (case write_file (legacy_fault e) (legacy_path e)
             (Legacy (py_slice_to target_count current)) files of
        (Inl err, files1) \<Rightarrow> (Inl err, files1, [Open_for_writing (legacy_path e)])
      | (Inr u, files1) \<Rightarrow>
          (case say e Log_legacy_updated of
             (r, evs) \<Rightarrow> (r, files1, Open_for_writing (legacy_path e) # evs)))"

text \<open>
  Lines 195 to 221: an \<open>IOError\<close> of the first block is raised again as
  \<open>CommandError\<close>, which leaves \<open>handle\<close>; an \<open>IOError\<close> of the second block is caught
  and the warning is written, outside any \<open>try\<close>. Both \<open>except\<close> clauses catch
  \<open>IOError\<close> only, so any other exception of a block leaves \<open>handle\<close> as it is.
\<close>

definition save ::
  "env \<Rightarrow> int \<Rightarrow> result \<Rightarrow> game_info list \<Rightarrow> fs \<Rightarrow> (error + unit) \<times> fs \<times> event list"
where
  "save e target_count res current files =
     (case write_primary e res files of
        (Inl err, files1, evs1) \<Rightarrow>
          (if err = IOError then (Inl CommandError, files1, evs1)
           else (Inl err, files1, evs1))
      | (Inr u, files1, evs1) \<Rightarrow>
          (case write_legacy e target_count current files1 of
             (Inl err, files2, evs2) \<Rightarrow>
               (if err = IOError
                then (case say e Warn_legacy_failed of
                        (r, evs3) \<Rightarrow> (r, files2, evs1 @ evs2 @ evs3))
                else (Inl err, files2, evs1 @ evs2))
           | (Inr u, files2, evs2) \<Rightarrow> (Inr (), files2, evs1 @ evs2)))"

subsection \<open>The command\<close>

text \<open>
  \<open>handle\<close> with the options \<open>count\<close> and \<open>batch_size\<close>: the result is what the caller
  sees (\<open>Inl\<close> an exception that left \<open>handle\<close>), the file system afterwards and the
  events of the run. An exception of the classification loop or of a sort is not
  caught anywhere and ends the run before any file is opened. So does a message outside
  the two \<open>try\<close> blocks that raises; \<open>handle\<close> describes the runs in which those
  messages were written.
\<close>

definition handle :: "env \<Rightarrow> int \<Rightarrow> int \<Rightarrow> fs \<Rightarrow> (error + unit) \<times> fs \<times> event list" where
  "handle e count batch files =
     (let target_count = count;
          batch_size = min batch 100;
          all_sales = fst (fetch_loop (env_api e) target_count batch_size ([], 1))
      in case classify_loop (env_today e) all_sales init_state of
           Inl err \<Rightarrow> (Inl err, files, [])
         | Inr st \<Rightarrow>
             (case build_result (env_now e) all_sales st of
                Inl err \<Rightarrow> (Inl err, files, [Log_filtered (skipped_scam st)])
              | Inr (res, current) \<Rightarrow>
                  (case save e target_count res current files of
                     (r, files', evs) \<Rightarrow> (r, files', Log_filtered (skipped_scam st) # evs))))"

subsection \<open>The anomaly rules as the specification words them\<close>

text \<open>
  The five rejection rules of the specification, on the discount rate, the original
  price, the current price, the sale count and the title of a record, combined by
  disjunction.
\<close>

definition is_anomalous :: "rat \<Rightarrow> rat \<Rightarrow> rat \<Rightarrow> rat \<Rightarrow> string \<Rightarrow> bool" where
  "is_anomalous d orig cur cnt t \<longleftrightarrow>
     d > 1
   \<or> orig > 500000
   \<or> (d \<ge> 9/10 \<and> cur > 30000)
   \<or> (cnt < 3 \<and> d \<ge> 19/20)
   \<or> (d \<ge> 19/20 \<and>
      (\<exists>kw \<in> set [''puzzle pack'', ''dlc bundle'', ''soundtrack'', ''ost'', ''artbook''].
         sublist kw (map lower_char t)))"

subsection \<open>The classification phase as one function\<close>

text \<open>
  Lines 97 to 193 for a given \<open>all_sales\<close>: the loop from the empty accumulators, then
  the sorts and the snapshot. The result holds the final accumulators, the snapshot and
  the sorted, untruncated \<open>current_sales\<close>.
\<close>

definition classify ::
  "string \<Rightarrow> string \<Rightarrow> item list \<Rightarrow> error + (state \<times> result \<times> game_info list)"
where
  "classify tday nw all_sales =
     bind (classify_loop tday all_sales init_state) (\<lambda>st.
     bind (build_result nw all_sales st) (\<lambda>(res, cur). Inr (st, res, cur)))"

subsection \<open>Notions used in the statements\<close>

text \<open>
  A record has the types of the data model when its numeric fields are numbers, its
  title and end date are strings, or the field is missing or (where the source reads it
  with \<open>or\<close>) null.
\<close>

definition well_typed :: "item \<Rightarrow> bool" where
  "well_typed item \<longleftrightarrow>
     is_number (py_or (item_get item ''discount_rt'') (PNum 0))
   \<and> is_number (py_or (item_get item ''sale_price_va'') (PNum 0))
   \<and> is_number (py_or (item_get item ''full_price_va'') (PNum 0))
   \<and> is_number (item_get_default item ''sale_cn'' (PNum 0))
   \<and> is_string (item_get_default item ''title_nm'' (PStr ''''))
   \<and> is_string (py_or (item_get item ''end_dt'') (PStr ''''))"

text \<open>The sort keys of all accumulated entries are numbers.\<close>

definition sortable :: "state \<Rightarrow> bool" where
  "sortable st \<longleftrightarrow>
     list_all (\<lambda>g. is_number (discount_rate g) \<and> is_number (sale_count g)) (current_sales st)
   \<and> list_all (\<lambda>kb. is_number (discount_rate (snd kb)) \<and> is_number (current_price (snd kb)))
        (best_prices st)"

text \<open>
  A record is a price observation of the game \<open>k\<close> at the price \<open>p\<close> when it passes the
  filter, carries the \<open>game_id\<close> \<open>k\<close> and has the positive current price \<open>p\<close>; \<open>p\<close> is the
  lowest price of \<open>k\<close> in a list of records when it is observed there and no lower
  price of \<open>k\<close> is.
\<close>

definition observes :: "item \<Rightarrow> pyval \<Rightarrow> rat \<Rightarrow> bool" where
  "observes item k p \<longleftrightarrow>
     scam_filter item = Inr False \<and> item_get item ''game_id'' = k
   \<and> py_or (item_get item ''sale_price_va'') (PNum 0) = PNum p \<and> 0 < p"

definition is_lowest_price :: "item list \<Rightarrow> pyval \<Rightarrow> rat \<Rightarrow> bool" where
  "is_lowest_price items k p \<longleftrightarrow>
     list_ex (\<lambda>i. observes i k p) items
   \<and> list_all (\<lambda>i. observes i k (num_val (py_or (item_get i ''sale_price_va'') (PNum 0)))
                  \<longrightarrow> p \<le> num_val (py_or (item_get i ''sale_price_va'') (PNum 0))) items"

text \<open>
  A stored record is on sale on the day \<open>tday\<close> when its discount rate is a positive
  number and its end date is the empty string or a string not before \<open>tday\<close>.
\<close>

definition on_sale :: "string \<Rightarrow> game_info \<Rightarrow> bool" where
  "on_sale tday g \<longleftrightarrow>
     is_number (discount_rate g) \<and> 0 < num_val (discount_rate g)
   \<and> is_string (end_date g) \<and> (str_val (end_date g) = [] \<or> tday \<le> str_val (end_date g))"

text \<open>The snapshot that the classification phase hands to the writer, if it returns.\<close>

definition snapshot_of :: "string \<Rightarrow> string \<Rightarrow> item list \<Rightarrow> result option" where
  "snapshot_of tday nw all_sales =
     (case classify tday nw all_sales of Inl err \<Rightarrow> None | Inr (st, res, cur) \<Rightarrow> Some res)"

subsection \<open>Example inputs\<close>

text \<open>
  A record as the API returns it: game number \<open>n\<close>, an original price of 10000, the
  discount rate \<open>d\<close>, the sale count \<open>c\<close>, and no end date.
\<close>

definition sale_record :: "nat \<Rightarrow> rat \<Rightarrow> rat \<Rightarrow> item" where
  "sale_record n d c =
     [''game_id'' \<mapsto> PNum (of_nat n),
      ''title_nm'' \<mapsto> PStr ''Game'',
      ''sale_price_va'' \<mapsto> PNum (10000 * (1 - d)),
      ''full_price_va'' \<mapsto> PNum 10000,
      ''discount_rt'' \<mapsto> PNum d,
      ''img_lk'' \<mapsto> PStr ''https://cdn.example/capsule.jpg'',
      ''store_lk'' \<mapsto> PStr ''https://store.example/app'',
      ''end_dt'' \<mapsto> PStr '''',
      ''sale_cn'' \<mapsto> PNum c]"

text \<open>501 games at half price, each sold ten times.\<close>

definition half_price :: "nat \<Rightarrow> item" where
  "half_price n = sale_record n (1/2) 10"

definition many_sales :: "item list" where
  "many_sales = map half_price [1..<502]"

text \<open>
  500 games at 90 percent off, each sold ten times, followed by one game at half price
  that was sold a thousand times.
\<close>

definition deep_discount :: "nat \<Rightarrow> item" where
  "deep_discount n = sale_record n (9/10) 10"

definition best_seller :: item where
  "best_seller = sale_record 501 (1/2) 1000"

definition crowded_sales :: "item list" where
  "crowded_sales = map deep_discount [1..<501] @ [best_seller]"

text \<open>
  A server with two records on its first page and nothing after it, an installation
  under \<open>/srv/app\<close> whose two writes fare as \<open>f1\<close> and \<open>f2\<close> say, and the snapshot of
  an earlier run.
\<close>

definition demo_api :: "int \<Rightarrow> int \<Rightarrow> response" where
  "demo_api page batch_size =
     (if page = 1 then Response 200 [half_price 1, half_price 2] else Response 200 [])"

definition demo_env :: "fault \<Rightarrow> fault \<Rightarrow> env" where
  "demo_env f1 f2 =
     \<lparr>env_api = demo_api, env_today = ''20250101'', env_now = ''2025-01-01T09:00:00'',
      base_dir = ''/srv/app'', primary_fault = f1, legacy_fault = f2,
      stdout_fault = (\<lambda>m. None)\<rparr>"

text \<open>
  A standard output whose reader closes it after the line with the number of filtered
  records: every later message raises \<open>IOError\<close>.
\<close>

definition closed_after_filtered :: "event \<Rightarrow> error option" where
  "closed_after_filtered m = (case m of Log_filtered n \<Rightarrow> None | _ \<Rightarrow> Some IOError)"

definition old_snapshot :: result where
  "old_snapshot =
     \<lparr>updated_at = ''2024-12-31T09:00:00'',
      snap_current_sales = [], snap_top_sales = [], snap_best_prices = [],
      total_fetched = 0, current_count = 0, top_count = 0, best_prices_count = 0\<rparr>"

text \<open>A file that a failed write left incomplete.\<close>

fun torn :: "file_content option \<Rightarrow> bool" where
  "torn (Some (Torn doc)) = True"
| "torn _ = False"

subsection \<open>Notions for the fetch loop\<close>





text \<open>
  The invariant of the dictionary \<open>best_prices\<close> after the records \<open>seen\<close>: the keys
  are distinct; every entry is stored under its own \<open>game_id\<close>, which is truthy, is
  tagged, and holds the lowest price observed for that game; and every game with a
  truthy \<open>game_id\<close> for which a price was observed has an entry.
\<close>

definition best_inv :: "item list \<Rightarrow> (pyval \<times> game_info) list \<Rightarrow> bool" where
  "best_inv seen bp \<longleftrightarrow>
     distinct (map fst bp)
   \<and> (\<forall>k b. map_of bp k = Some b \<longrightarrow>
         game_id b = k \<and> truthy k \<and> is_best_price b
       \<and> (\<exists>p. current_price b = PNum p \<and> is_lowest_price seen k p))
   \<and> (\<forall>i \<in> set seen. \<forall>p.
         observes i (item_get i ''game_id'') p \<and> truthy (item_get i ''game_id'') \<longrightarrow>
           map_of bp (item_get i ''game_id'') \<noteq> None)"

text \<open>A record of the game \<open>100\<close>, original price 2000, on sale at the price \<open>p\<close>.\<close>

definition offer :: "rat \<Rightarrow> item" where
  "offer p =
     [''game_id'' \<mapsto> PStr ''100'',
      ''title_nm'' \<mapsto> PStr ''Game'',
      ''sale_price_va'' \<mapsto> PNum p,
      ''full_price_va'' \<mapsto> PNum 2000,
      ''discount_rt'' \<mapsto> PNum (1 - p / 2000),
      ''end_dt'' \<mapsto> PStr '''',
      ''sale_cn'' \<mapsto> PNum 10]"

text \<open>
  Records without \<open>game_id\<close> and without \<open>title_nm\<close>, at 60 percent and at 320 percent
  off; and records whose \<open>title_nm\<close> and \<open>sale_cn\<close> are null, at the discount rate \<open>d\<close>.
\<close>

definition nameless :: "rat \<Rightarrow> item" where
  "nameless d =
     [''sale_price_va'' \<mapsto> PNum 4000,
      ''full_price_va'' \<mapsto> PNum 10000,
      ''discount_rt'' \<mapsto> PNum d,
      ''end_dt'' \<mapsto> PStr '''',
      ''sale_cn'' \<mapsto> PNum 10]"

definition with_nulls :: "rat \<Rightarrow> item" where
  "with_nulls d =
     [''game_id'' \<mapsto> PNum 7,
      ''title_nm'' \<mapsto> PNone,
      ''sale_price_va'' \<mapsto> PNum 4000,
      ''full_price_va'' \<mapsto> PNum 10000,
      ''discount_rt'' \<mapsto> PNum d,
      ''end_dt'' \<mapsto> PStr '''',
      ''sale_cn'' \<mapsto> PNone]"

text \<open>The first three rules of the filter, which are checked before \<open>sale_cn\<close> is read.\<close>

definition rejected_early :: "rat \<Rightarrow> rat \<Rightarrow> rat \<Rightarrow> bool" where
  "rejected_early d orig cur \<longleftrightarrow> d > 1 \<or> orig > 500000 \<or> (d \<ge> 9/10 \<and> cur > 30000)"

subsection \<open>The order of the sorted lists\<close>

text \<open>
  The numbers that the two sorts compare: the discount rate and the sale count of a
  stored record, 0 when the field is not a number. \<open>stable_desc f xs ys\<close> says that \<open>ys\<close>
  is \<open>xs\<close> sorted in descending order of \<open>f\<close> with equal elements in their order in
  \<open>xs\<close>: the values of \<open>f\<close> do not increase along \<open>ys\<close>, and for every value the elements
  of \<open>ys\<close> with that value are those of \<open>xs\<close>, in the same order.
\<close>

definition discount_of :: "game_info \<Rightarrow> rat" where
  "discount_of g = num_val (discount_rate g)"

definition sales_of :: "game_info \<Rightarrow> rat" where
  "sales_of g = num_val (sale_count g)"

definition stable_desc :: "('a \<Rightarrow> rat) \<Rightarrow> 'a list \<Rightarrow> 'a list \<Rightarrow> bool" where
  "stable_desc f xs ys \<longleftrightarrow>
     sorted_wrt (\<lambda>a b. f b \<le> f a) ys
   \<and> list_all (\<lambda>x. filter (\<lambda>y. f y = f x) ys = filter (\<lambda>y. f y = f x) xs) (xs @ ys)"

text \<open>The records of a run that reach \<open>current_sales\<close>, in the order of the fetch.\<close>

definition current_records :: "string \<Rightarrow> item list \<Rightarrow> game_info list" where
  "current_records tday items =
     map make_game_info
       (filter (\<lambda>i. scam_filter i = Inr False \<and> on_sale tday (make_game_info i)) items)"

text \<open>600 games at 10 percent off, followed by ten games at 60 percent off.\<close>

definition small_discount :: "nat \<Rightarrow> item" where
  "small_discount n = sale_record n (1/10) 10"

definition big_discount :: "nat \<Rightarrow> item" where
  "big_discount n = sale_record n (3/5) 10"

definition mostly_small :: "item list" where
  "mostly_small = map small_discount [1..<601] @ map big_discount [601..<611]"

text \<open>
  A run leaves the legacy file alone when it does not open it, writes neither of the two
  messages about it, and leaves its content as it was.
\<close>

definition legacy_untouched :: "env \<Rightarrow> fs \<Rightarrow> fs \<Rightarrow> event list \<Rightarrow> bool" where
  "legacy_untouched e files files' evs \<longleftrightarrow>
     Open_for_writing (legacy_path e) \<notin> set evs
   \<and> Log_legacy_updated \<notin> set evs
   \<and> Warn_legacy_failed \<notin> set evs
   \<and> files' (legacy_path e) = files (legacy_path e)"

section \<open>Properties\<close>

subsection \<open>Computations that may raise, and one iteration of the loop\<close>

declare fetch_loop.simps [simp del]

lemma bind_InrE:
  assumes "bind m f = Inr y"
  obtains x where "m = Inr x" and "f x = Inr y"
  using assms by (cases m) (simp_all add: bind_def)

lemma bind_Inr_iff: "bind m f = Inr y \<longleftrightarrow> (\<exists>x. m = Inr x \<and> f x = Inr y)"
  by (cases m) (simp_all add: bind_def)

lemma py_if_Inr_iff:
  "py_if c a b = Inr y \<longleftrightarrow> (c = Inr True \<and> a = Inr y) \<or> (c = Inr False \<and> b = Inr y)"
  by (cases c) (auto simp add: py_if_def)

lemma py_and_Inr_iff:
  "py_and a b = Inr y \<longleftrightarrow> (a = Inr True \<and> b = Inr y) \<or> (a = Inr False \<and> \<not> y)"
  by (cases a) (auto simp add: py_and_def)

lemma store_simps [simp]:
  "current_sales (store st g cur best) =
     (if cur then current_sales st @ [g] else current_sales st)"
  "best_prices (store st g cur best) =
     (if best then AList.update (game_id g) (g\<lparr>is_best_price := True\<rparr>) (best_prices st)
      else best_prices st)"
  "skipped_scam (store st g cur best) = skipped_scam st"
  by (simp_all add: store_def)

lemma process_item_scam:
  "scam_filter item = Inr True \<Longrightarrow>
     process_item tday item st = Inr (st\<lparr>skipped_scam := skipped_scam st + 1\<rparr>)"
  by (simp add: process_item_def bind_def)

lemma process_item_keep:
  "scam_filter item = Inr False \<Longrightarrow>
     process_item tday item st =
       bind (is_current tday (make_game_info item)) (\<lambda>cur.
       bind (is_new_best (best_prices st) (make_game_info item)) (\<lambda>best.
         Inr (store st (make_game_info item) cur best)))"
  by (simp add: process_item_def bind_def Let_def)

lemma process_item_cases [consumes 1, case_names scam keep]:
  assumes "process_item tday item st = Inr st'"
  obtains
    "scam_filter item = Inr True" "st' = st\<lparr>skipped_scam := skipped_scam st + 1\<rparr>"
  | cur best where
    "scam_filter item = Inr False"
    "is_current tday (make_game_info item) = Inr cur"
    "is_new_best (best_prices st) (make_game_info item) = Inr best"
    "st' = store st (make_game_info item) cur best"
proof -
  from assms obtain scam where f: "scam_filter item = Inr scam"
    unfolding process_item_def by (rule bind_InrE)
  show thesis
  proof (cases scam)
    case True
    with f assms show thesis
      by (intro that(1)) (simp_all add: process_item_scam)
  next
    case False
    with f have g: "scam_filter item = Inr False" by simp
    from assms [unfolded process_item_keep [OF g]] show thesis
      by (elim bind_InrE) (use g in \<open>auto intro: that(2)\<close>)
  qed
qed

lemma is_current_True_iff:
  "is_current tday g = Inr True \<longleftrightarrow>
     (\<exists>r e. discount_rate g = PNum r \<and> 0 < r \<and> end_date g = PStr e \<and> (e = [] \<or> tday \<le> e))"
  by (cases "end_date g"; cases "discount_rate g")
     (auto simp add: is_current_def py_and_def py_or_else_def)

lemma classify_loop_current_sales:
  "classify_loop tday items st = Inr st' \<Longrightarrow>
     current_sales st' = current_sales st @ map make_game_info
       (filter (\<lambda>i. scam_filter i = Inr False \<and> is_current tday (make_game_info i) = Inr True)
          items)"
proof (induction items arbitrary: st)
  case Nil
  then show ?case by simp
next
  case (Cons item items)
  from Cons.prems obtain st1 where
    step: "process_item tday item st = Inr st1" and
    rest: "classify_loop tday items st1 = Inr st'"
    by (auto elim: bind_InrE)
  from step have "current_sales st1 = current_sales st @ map make_game_info
       (filter (\<lambda>i. scam_filter i = Inr False \<and> is_current tday (make_game_info i) = Inr True)
          [item])"
    by (cases rule: process_item_cases) auto
  with Cons.IH [OF rest] show ?case by simp
qed

subsection \<open>The filter on records of the data model\<close>

lemma scam_filter_typed:
  assumes "py_or (item_get item ''discount_rt'') (PNum 0) = PNum d"
      and "py_or (item_get item ''full_price_va'') (PNum 0) = PNum orig"
      and "py_or (item_get item ''sale_price_va'') (PNum 0) = PNum cur"
      and "item_get_default item ''sale_cn'' (PNum 0) = PNum cnt"
      and "item_get_default item ''title_nm'' (PStr '''') = PStr t"
  shows "scam_filter item = Inr (is_anomalous d orig cur cnt t)"
  using assms
  by (auto simp add: scam_filter_def Let_def is_anomalous_def py_if_def py_and_def bind_def
      scam_keywords_def list_ex_iff)

subsection \<open>Sorting, filtering and the construction of the snapshot\<close>

lemma py_sort_desc_Inr:
  assumes "py_sort_desc key xs = Inr ys"
  shows "set ys = set xs" and "length ys = length xs" and "distinct ys = distinct xs"
  using assms by (auto simp add: py_sort_desc_def split: if_splits)

lemma py_sort_desc_num:
  assumes "\<forall>x \<in> set xs. is_number (key x)"
  shows "\<exists>ys. py_sort_desc key xs = Inr ys"
  using assms by (simp add: py_sort_desc_def list_all_iff)

lemma py_filter_Inr:
  "py_filter p xs = Inr ys \<Longrightarrow> ys = filter (\<lambda>x. p x = Inr True) xs"
  by (induction xs arbitrary: ys) (auto simp add: bind_Inr_iff)

lemma py_filter_total:
  "\<forall>x \<in> set xs. \<exists>b. p x = Inr b \<Longrightarrow> \<exists>ys. py_filter p xs = Inr ys"
  by (induction xs) (auto simp add: bind_def)

lemma build_result_Inr:
  assumes "build_result nw all_sales st = Inr (res, cur)"
  obtains popular_sales best_prices_list where
    "py_sort_desc discount_key (current_sales st) = Inr cur"
    "py_sort_desc sale_count_key
       (filter (\<lambda>g. py_ge (discount_key g) (PNum (1/2)) = Inr True) cur) = Inr popular_sales"
    "py_sort_desc discount_key (map snd (best_prices st)) = Inr best_prices_list"
    "res = \<lparr>updated_at = nw,
             snap_current_sales = take 500 cur,
             snap_top_sales = take 50 (take 50 popular_sales),
             snap_best_prices = take 200 best_prices_list,
             total_fetched = length all_sales,
             current_count = length cur,
             top_count = length (take 50 popular_sales),
             best_prices_count = length best_prices_list\<rparr>"
  using assms
  by (auto simp add: build_result_def bind_Inr_iff Let_def dest!: py_filter_Inr)

subsection \<open>The sort keys are numbers\<close>

lemma py_gt_number: "py_gt v (PNum c) = Inr b \<Longrightarrow> is_number v"
  by (cases v) simp_all

lemma py_lt_number: "py_lt v (PNum c) = Inr b \<Longrightarrow> is_number v"
  by (cases v) simp_all

lemma scam_filter_FalseD:
  assumes "scam_filter item = Inr False"
  shows "py_gt (discount_rate (make_game_info item)) (PNum 1) = Inr False"
    and "py_gt (original_price (make_game_info item)) (PNum 500000) = Inr False"
    and "\<exists>b. py_lt (sale_count (make_game_info item)) (PNum 3) = Inr b"
  using assms
  by (auto simp add: scam_filter_def Let_def make_game_info_def py_if_Inr_iff py_and_Inr_iff)

lemma scam_filter_False_numeric:
  assumes "scam_filter item = Inr False"
  shows "is_number (discount_rate (make_game_info item))"
    and "is_number (original_price (make_game_info item))"
    and "is_number (sale_count (make_game_info item))"
  using scam_filter_FalseD [OF assms] by (auto dest: py_gt_number py_lt_number)

lemma is_new_best_True_number:
  "is_new_best bp g = Inr True \<Longrightarrow> is_number (current_price g)"
  by (auto simp add: is_new_best_def py_and_Inr_iff dest: py_gt_number)

lemma set_update_subset: "set (AList.update k v al) \<subseteq> insert (k, v) (set al)"
  by (induction al) auto

lemma process_item_sortable:
  assumes "process_item tday item st = Inr st'" and "sortable st"
  shows "sortable st'"
  using assms(1)
proof (cases rule: process_item_cases)
  case scam
  with assms(2) show ?thesis by (simp add: sortable_def)
next
  case (keep cur best)
  note num = scam_filter_False_numeric [OF keep(1)]
  have "best \<Longrightarrow> is_number (current_price (make_game_info item))"
    using keep(3) by (auto dest: is_new_best_True_number)
  with assms(2) num keep(4) show ?thesis
    using set_update_subset [of "game_id (make_game_info item)"
        "(make_game_info item)\<lparr>is_best_price := True\<rparr>" "best_prices st"]
    by (auto simp add: sortable_def list_all_iff)
qed

lemma classify_loop_sortable:
  "classify_loop tday items st = Inr st' \<Longrightarrow> sortable st \<Longrightarrow> sortable st'"
proof (induction items arbitrary: st)
  case Nil
  then show ?case by simp
next
  case (Cons item items)
  from Cons.prems(1) obtain st1 where
    step: "process_item tday item st = Inr st1" and
    rest: "classify_loop tday items st1 = Inr st'"
    by (auto elim: bind_InrE)
  show ?case
    by (rule Cons.IH [OF rest process_item_sortable [OF step Cons.prems(2)]])
qed

lemma sortable_init: "sortable init_state"
  by (simp add: sortable_def init_state_def)

lemma discount_key_number: "is_number (discount_rate g) \<Longrightarrow> is_number (discount_key g)"
  by (simp add: discount_key_def py_or_def)

lemma sale_count_key_number: "is_number (sale_count g) \<Longrightarrow> is_number (sale_count_key g)"
  by (simp add: sale_count_key_def py_or_def)

lemma py_ge_number: "is_number v \<Longrightarrow> \<exists>b. py_ge v (PNum c) = Inr b"
  by (cases v) simp_all

lemma build_result_total:
  assumes "sortable st"
  shows "\<exists>res cur. build_result nw all_sales st = Inr (res, cur)"
proof -
  from assms have cs: "\<forall>g \<in> set (current_sales st). is_number (discount_rate g) \<and> is_number (sale_count g)"
    and bs: "\<forall>b \<in> set (map snd (best_prices st)). is_number (discount_rate b)"
    by (auto simp add: sortable_def list_all_iff)
  from cs obtain cur where cur: "py_sort_desc discount_key (current_sales st) = Inr cur"
    using py_sort_desc_num [of "current_sales st" discount_key] by (auto dest: discount_key_number)
  have scur: "set cur = set (current_sales st)" using cur by (rule py_sort_desc_Inr)
  with cs have "\<forall>g \<in> set cur. \<exists>b. py_ge (discount_key g) (PNum (1/2)) = Inr b"
    by (auto intro: py_ge_number discount_key_number)
  then have "\<exists>ys. py_filter (\<lambda>g. py_ge (discount_key g) (PNum (1/2))) cur = Inr ys"
    by (rule py_filter_total)
  then obtain popular where
    pop: "py_filter (\<lambda>g. py_ge (discount_key g) (PNum (1/2))) cur = Inr popular" ..
  from py_filter_Inr [OF pop] scur cs have "\<forall>g \<in> set popular. is_number (sale_count_key g)"
    by (auto intro: sale_count_key_number)
  then have "\<exists>ys. py_sort_desc sale_count_key popular = Inr ys"
    by (rule py_sort_desc_num)
  then obtain popular_sales where
    ps: "py_sort_desc sale_count_key popular = Inr popular_sales" ..
  from bs obtain bl where
    bl: "py_sort_desc discount_key (map snd (best_prices st)) = Inr bl"
    using py_sort_desc_num [of "map snd (best_prices st)" discount_key]
    by (auto dest: discount_key_number)
  show ?thesis
    by (simp add: build_result_def cur pop ps bl bind_def Let_def)
qed

subsection \<open>Records of the data model are classified without an exception\<close>

lemma is_numberE:
  assumes "is_number v" obtains r where "v = PNum r"
  using assms by (cases v) simp_all

lemma is_stringE:
  assumes "is_string v" obtains s where "v = PStr s"
  using assms by (cases v) simp_all

lemma classify_Inr_iff:
  "classify tday nw items = Inr (st, res, cur) \<longleftrightarrow>
     classify_loop tday items init_state = Inr st \<and> build_result nw items st = Inr (res, cur)"
  by (auto simp add: classify_def bind_Inr_iff)

lemma scam_filter_total:
  assumes "well_typed item"
  shows "\<exists>b. scam_filter item = Inr b"
proof -
  from assms obtain d orig cur cnt t where
    "py_or (item_get item ''discount_rt'') (PNum 0) = PNum d"
    "py_or (item_get item ''full_price_va'') (PNum 0) = PNum orig"
    "py_or (item_get item ''sale_price_va'') (PNum 0) = PNum cur"
    "item_get_default item ''sale_cn'' (PNum 0) = PNum cnt"
    "item_get_default item ''title_nm'' (PStr '''') = PStr t"
    unfolding well_typed_def by (elim conjE is_numberE is_stringE)
  then have "scam_filter item = Inr (is_anomalous d orig cur cnt t)"
    by (rule scam_filter_typed)
  then show ?thesis ..
qed

lemma is_current_total:
  assumes "well_typed item"
  shows "\<exists>b. is_current tday (make_game_info item) = Inr b"
proof -
  from assms have "is_number (discount_rate (make_game_info item))"
    and "is_string (end_date (make_game_info item))"
    by (simp_all add: well_typed_def make_game_info_def)
  then obtain d e where
    "discount_rate (make_game_info item) = PNum d" "end_date (make_game_info item) = PStr e"
    by (elim is_numberE is_stringE)
  then show ?thesis
    by (auto simp add: is_current_def py_and_def py_or_else_def)
qed

lemma is_new_best_total:
  assumes "well_typed item" and "sortable st"
  shows "\<exists>b. is_new_best (best_prices st) (make_game_info item) = Inr b"
proof -
  from assms(1) have "is_number (current_price (make_game_info item))"
    by (simp add: well_typed_def make_game_info_def)
  then obtain p where p: "current_price (make_game_info item) = PNum p"
    by (rule is_numberE)
  show ?thesis
  proof (cases "map_of (best_prices st) (game_id (make_game_info item))")
    case None
    with p show ?thesis by (auto simp add: is_new_best_def py_and_def)
  next
    case (Some b)
    then have "(game_id (make_game_info item), b) \<in> set (best_prices st)"
      by (rule map_of_SomeD)
    with assms(2) have "is_number (current_price b)"
      by (auto simp add: sortable_def list_all_iff)
    then obtain q where "current_price b = PNum q" by (rule is_numberE)
    with p Some show ?thesis by (auto simp add: is_new_best_def py_and_def)
  qed
qed

lemma process_item_total:
  assumes "well_typed item" and "sortable st"
  shows "\<exists>st'. process_item tday item st = Inr st'"
proof -
  from scam_filter_total [OF assms(1)] obtain scam where f: "scam_filter item = Inr scam" ..
  from is_current_total [OF assms(1)] obtain cur where
    c: "is_current tday (make_game_info item) = Inr cur" ..
  from is_new_best_total [OF assms] obtain best where
    b: "is_new_best (best_prices st) (make_game_info item) = Inr best" ..
  show ?thesis
    by (cases scam) (simp_all add: f process_item_scam process_item_keep c b bind_def)
qed

lemma classify_loop_total:
  "\<forall>i \<in> set items. well_typed i \<Longrightarrow> sortable st \<Longrightarrow> \<exists>st'. classify_loop tday items st = Inr st'"
proof (induction items arbitrary: st)
  case Nil
  then show ?case by simp
next
  case (Cons item items)
  from Cons.prems obtain st1 where step: "process_item tday item st = Inr st1"
    using process_item_total [of item st tday] by auto
  from process_item_sortable [OF step Cons.prems(2)] Cons.prems(1)
  have "\<exists>st'. classify_loop tday items st1 = Inr st'"
    by (intro Cons.IH) simp_all
  with step show ?case by (simp add: bind_def)
qed

lemma classify_total:
  assumes "\<forall>i \<in> set items. well_typed i"
  shows "\<exists>st res cur. classify tday nw items = Inr (st, res, cur)"
proof -
  from classify_loop_total [OF assms sortable_init] obtain st where
    l: "classify_loop tday items init_state = Inr st" ..
  from classify_loop_sortable [OF l sortable_init] have "sortable st" .
  from build_result_total [OF this] obtain res cur where
    "build_result nw items st = Inr (res, cur)" by blast
  with l show ?thesis by (auto simp add: classify_Inr_iff)
qed

subsection \<open>The anomaly filter\<close>



subsection \<open>The views of the snapshot\<close>

lemma is_current_on_sale: "is_current tday g = Inr True \<longleftrightarrow> on_sale tday g"
  unfolding is_current_True_iff on_sale_def
  by (cases "discount_rate g"; cases "end_date g") auto

lemma classify_current_sales:
  assumes "classify tday nw items = Inr (st, res, cur)"
  shows "set cur = make_game_info `
           {i \<in> set items. scam_filter i = Inr False \<and> on_sale tday (make_game_info i)}"
    and "snap_current_sales res = take 500 cur"
    and "current_count res = length cur"
proof -
  from assms have l: "classify_loop tday items init_state = Inr st"
    and b: "build_result nw items st = Inr (res, cur)"
    by (simp_all add: classify_Inr_iff)
  from classify_loop_current_sales [OF l]
  have "set (current_sales st) = make_game_info `
           {i \<in> set items. scam_filter i = Inr False \<and> on_sale tday (make_game_info i)}"
    by (auto simp add: init_state_def is_current_on_sale)
  moreover from b have "set cur = set (current_sales st)"
    by (elim build_result_Inr) (rule py_sort_desc_Inr)
  ultimately show "set cur = make_game_info `
           {i \<in> set items. scam_filter i = Inr False \<and> on_sale tday (make_game_info i)}"
    by simp
  from b show "snap_current_sales res = take 500 cur" and "current_count res = length cur"
    by (elim build_result_Inr, simp)+
qed

lemma py_ge_half:
  "py_ge (discount_key g) (PNum (1/2)) = Inr True \<longleftrightarrow>
     is_number (discount_rate g) \<and> 1/2 \<le> num_val (discount_rate g)"
  by (cases "discount_rate g") (auto simp add: discount_key_def py_or_def)

subsection \<open>The order of the sorted lists\<close>

lemma py_sort_desc_numeric:
  assumes "py_sort_desc key xs = Inr ys" and "\<forall>x \<in> set xs. is_number (key x)"
  shows "ys = rev (sort_key (\<lambda>x. num_val (key x)) (rev xs))"
proof (cases "length xs \<le> 1")
  case True
  then have "xs = [] \<or> (\<exists>x. xs = [x])" by (cases xs) auto
  with assms(1) show ?thesis by (auto simp add: py_sort_desc_def)
next
  case False
  with assms show ?thesis by (simp add: py_sort_desc_def list_all_iff)
qed

lemma stable_desc_sort: "stable_desc f xs (rev (sort_key f (rev xs)))"
proof -
  have "sorted (map f (sort_key f (rev xs)))" by (rule sorted_sort_key)
  then have "sorted_wrt (\<lambda>a b. f a \<le> f b) (sort_key f (rev xs))"
    by (simp add: sorted_map)
  then have 1: "sorted_wrt (\<lambda>a b. f b \<le> f a) (rev (sort_key f (rev xs)))"
    by (simp add: sorted_wrt_rev)
  have 2: "filter (\<lambda>y. f y = k) (rev (sort_key f (rev xs))) = filter (\<lambda>y. f y = k) xs" for k
    by (simp add: rev_filter [symmetric] sort_key_stable)
  from 1 2 show ?thesis by (simp add: stable_desc_def list_all_iff)
qed

lemma stable_desc_set: "stable_desc f xs ys \<Longrightarrow> set ys = set xs"
proof -
  assume s: "stable_desc f xs ys"
  have "x \<in> set ys \<longleftrightarrow> x \<in> set xs" for x
  proof (cases "x \<in> set xs \<or> x \<in> set ys")
    case True
    with s have "filter (\<lambda>y. f y = f x) ys = filter (\<lambda>y. f y = f x) xs"
      by (auto simp add: stable_desc_def list_all_iff)
    then have "set (filter (\<lambda>y. f y = f x) ys) = set (filter (\<lambda>y. f y = f x) xs)" by simp
    then show ?thesis by auto
  next
    case False
    then show ?thesis by simp
  qed
  then show ?thesis by blast
qed

lemma key_values:
  "num_val (discount_key g) = discount_of g"
  "num_val (sale_count_key g) = sales_of g"
  by (cases "discount_rate g"; cases "sale_count g";
      simp add: discount_key_def sale_count_key_def discount_of_def sales_of_def py_or_def)+

lemma filter_desc_prefix:
  fixes f :: "'a \<Rightarrow> rat"
  assumes "sorted_wrt (\<lambda>a b. f b \<le> f a) xs"
  shows "filter (\<lambda>x. c \<le> f x) xs = take (length (filter (\<lambda>x. c \<le> f x) xs)) xs"
  using assms
proof (induction xs)
  case Nil
  then show ?case by simp
next
  case (Cons x xs)
  show ?case
  proof (cases "c \<le> f x")
    case True
    with Cons show ?thesis by simp
  next
    case False
    have "\<not> c \<le> f y" if "y \<in> set xs" for y
    proof
      assume "c \<le> f y"
      moreover from Cons.prems that have "f y \<le> f x" by simp
      ultimately have "c \<le> f x" by (rule order_trans)
      with False show False by simp
    qed
    then have "\<forall>y \<in> set xs. \<not> c \<le> f y" by blast
    then have "filter (\<lambda>x. c \<le> f x) xs = []" by (simp add: filter_empty_conv)
    with False show ?thesis by simp
  qed
qed

lemma py_ge_half_discount:
  "(py_ge (discount_key g) (PNum (1/2)) = Inr True) = (1/2 \<le> discount_of g)"
  by (cases "discount_rate g") (auto simp add: discount_key_def py_or_def discount_of_def)

lemma classify_current_records:
  assumes "classify tday nw items = Inr (st, res, cur)"
  shows "current_sales st = current_records tday items"
proof -
  from assms have l: "classify_loop tday items init_state = Inr st"
    by (simp add: classify_Inr_iff)
  have "current_sales init_state = []" by (simp add: init_state_def)
  with classify_loop_current_sales [OF l] show ?thesis
    by (simp add: current_records_def is_current_on_sale)
qed

lemma classify_order:
  assumes "classify tday nw items = Inr (st, res, cur)"
  shows "stable_desc discount_of (current_records tday items) cur"
    and "\<exists>popular_sales.
           stable_desc sales_of (filter (\<lambda>g. 1/2 \<le> discount_of g) cur) popular_sales
         \<and> snap_top_sales res = take 50 popular_sales"
proof -
  from assms have l: "classify_loop tday items init_state = Inr st"
    and b: "build_result nw items st = Inr (res, cur)"
    by (simp_all add: classify_Inr_iff)
  from classify_loop_sortable [OF l sortable_init]
  have num: "\<forall>g \<in> set (current_sales st). is_number (discount_rate g) \<and> is_number (sale_count g)"
    by (simp add: sortable_def list_all_iff)
  from b obtain popular_sales where
    s1: "py_sort_desc discount_key (current_sales st) = Inr cur" and
    s2: "py_sort_desc sale_count_key
           (filter (\<lambda>g. py_ge (discount_key g) (PNum (1/2)) = Inr True) cur) = Inr popular_sales" and
    top: "snap_top_sales res = take 50 (take 50 popular_sales)"
    by (elim build_result_Inr) simp
  from num have "\<forall>g \<in> set (current_sales st). is_number (discount_key g)"
    by (simp add: discount_key_number)
  from py_sort_desc_numeric [OF s1 this]
  have "cur = rev (sort_key discount_of (rev (current_sales st)))"
    by (simp add: key_values)
  then have "stable_desc discount_of (current_sales st) cur"
    by (simp only: stable_desc_sort)
  then show c: "stable_desc discount_of (current_records tday items) cur"
    by (simp only: classify_current_records [OF assms])
  from py_sort_desc_Inr(1) [OF s1] num
  have "\<forall>g \<in> set (filter (\<lambda>g. py_ge (discount_key g) (PNum (1/2)) = Inr True) cur).
          is_number (sale_count_key g)"
    by (simp add: sale_count_key_number)
  from py_sort_desc_numeric [OF s2 this]
  have "popular_sales = rev (sort_key sales_of (rev (filter (\<lambda>g. 1/2 \<le> discount_of g) cur)))"
    by (simp add: key_values py_ge_half_discount)
  then have "stable_desc sales_of (filter (\<lambda>g. 1/2 \<le> discount_of g) cur) popular_sales"
    by (simp only: stable_desc_sort)
  with top show "\<exists>popular_sales.
           stable_desc sales_of (filter (\<lambda>g. 1/2 \<le> discount_of g) cur) popular_sales
         \<and> snap_top_sales res = take 50 popular_sales"
    by auto
qed

lemma stable_desc_sorted: "stable_desc f xs ys \<Longrightarrow> sorted_wrt (\<lambda>a b. f b \<le> f a) ys"
  by (simp add: stable_desc_def)

lemma top_within_current:
  assumes "classify tday nw items = Inr (st, res, cur)"
    and "length (filter (\<lambda>g. 1/2 \<le> discount_of g) cur) \<le> 500"
  shows "set (snap_top_sales res) \<subseteq> set (snap_current_sales res)"
proof -
  from classify_order(2) [OF assms(1)] obtain popular_sales where
    p: "stable_desc sales_of (filter (\<lambda>g. 1/2 \<le> discount_of g) cur) popular_sales" and
    top: "snap_top_sales res = take 50 popular_sales"
    by blast
  from classify_order(1) [OF assms(1)] have "sorted_wrt (\<lambda>a b. discount_of b \<le> discount_of a) cur"
    by (rule stable_desc_sorted)
  from filter_desc_prefix [OF this, of "1/2"]
  have "filter (\<lambda>g. 1/2 \<le> discount_of g) cur
          = take (length (filter (\<lambda>g. 1/2 \<le> discount_of g) cur)) cur" .
  then have "set (filter (\<lambda>g. 1/2 \<le> discount_of g) cur)
          = set (take (length (filter (\<lambda>g. 1/2 \<le> discount_of g) cur)) cur)"
    by (rule arg_cong)
  also from assms(2) have "\<dots> \<subseteq> set (take 500 cur)"
    by (rule set_take_subset_set_take)
  finally have "set (filter (\<lambda>g. 1/2 \<le> discount_of g) cur) \<subseteq> set (take 500 cur)" .
  moreover from top have "set (snap_top_sales res) \<subseteq> set popular_sales"
    by (simp add: set_take_subset)
  moreover from p have "set popular_sales = set (filter (\<lambda>g. 1/2 \<le> discount_of g) cur)"
    by (rule stable_desc_set)
  ultimately show ?thesis by (simp add: classify_current_sales(2) [OF assms(1)])
qed
lemma stable_desc_filter:
  assumes "stable_desc f xs ys"
  shows "filter (\<lambda>y. f y = k) ys = filter (\<lambda>y. f y = k) xs"
proof (cases "\<exists>x \<in> set (xs @ ys). f x = k")
  case True
  then obtain x where "x \<in> set (xs @ ys)" and "f x = k" by blast
  with assms show ?thesis
    by (auto simp add: stable_desc_def list_all_iff)
next
  case False
  then have "filter (\<lambda>y. f y = k) ys = []" and "filter (\<lambda>y. f y = k) xs = []"
    by (auto simp add: filter_empty_conv)
  then show ?thesis by simp
qed

lemma sorted_desc_equal:
  fixes f :: "'a \<Rightarrow> rat"
  assumes "sorted_wrt (\<lambda>a b. f b \<le> f a) ys"
    and "sorted_wrt (\<lambda>a b. f b \<le> f a) zs"
    and "\<And>k. filter (\<lambda>y. f y = k) ys = filter (\<lambda>y. f y = k) zs"
  shows "ys = zs"
  using assms
proof (induction ys arbitrary: zs)
  case Nil
  show ?case
  proof (cases zs)
    case Nil
    then show ?thesis by simp
  next
    case (Cons z zs')
    with Nil.prems(3) [of "f z"] show ?thesis by simp
  qed
next
  case (Cons y ys')
  from Cons.prems(3) [of "f y"] have yz: "y # filter (\<lambda>x. f x = f y) ys' = filter (\<lambda>x. f x = f y) zs"
    by simp
  then have "zs \<noteq> []" by auto
  then obtain z zs' where zs: "zs = z # zs'" by (cases zs) auto
  from yz have "y \<in> set (filter (\<lambda>x. f x = f y) zs)" by (metis list.set_intros(1))
  then have "y \<in> set zs" by simp
  with Cons.prems(2) zs have 1: "f y \<le> f z" by auto
  from Cons.prems(3) [of "f z"] zs have "z \<in> set (filter (\<lambda>x. f x = f z) (y # ys'))"
    by simp
  then have "z \<in> set (y # ys')" by (simp only: set_filter) simp
  with Cons.prems(1) have 2: "f z \<le> f y" by auto
  from 1 2 have k: "f z = f y" by simp
  with yz zs have "z = y" by simp
  have t: "filter (\<lambda>x. f x = k) ys' = filter (\<lambda>x. f x = k) zs'" for k
    using Cons.prems(3) [of k] zs \<open>z = y\<close> by (cases "f y = k") simp_all
  from Cons.prems(1) have "sorted_wrt (\<lambda>a b. f b \<le> f a) ys'" by simp
  moreover from Cons.prems(2) zs have "sorted_wrt (\<lambda>a b. f b \<le> f a) zs'" by simp
  ultimately have "ys' = zs'" using t by (rule Cons.IH)
  with zs \<open>z = y\<close> show ?case by simp
qed

lemma stable_desc_unique:
  assumes "stable_desc f xs ys"
  shows "ys = rev (sort_key f (rev xs))"
proof -
  note s = stable_desc_sort [of f xs]
  show ?thesis
  proof (rule sorted_desc_equal [of f])
    from assms show "sorted_wrt (\<lambda>a b. f b \<le> f a) ys" by (rule stable_desc_sorted)
    from s show "sorted_wrt (\<lambda>a b. f b \<le> f a) (rev (sort_key f (rev xs)))"
      by (rule stable_desc_sorted)
    show "filter (\<lambda>y. f y = k) ys = filter (\<lambda>y. f y = k) (rev (sort_key f (rev xs)))" for k
      by (simp only: stable_desc_filter [OF assms] stable_desc_filter [OF s])
  qed
qed


subsection \<open>Sorting lists that are almost in order, and the example records\<close>

lemma py_sort_desc_sorted:
  assumes "\<forall>x \<in> set xs. is_number (key x)"
    and "sorted (map (\<lambda>x. num_val (key x)) (rev xs))"
  shows "py_sort_desc key xs = Inr xs"
  using assms by (simp add: py_sort_desc_def list_all_iff sort_key_id_if_sorted)

lemma insort_key_greatest:
  "\<forall>y \<in> set ys. f y < f x \<Longrightarrow> insort_key f x ys = ys @ [x]"
  by (induction ys) auto

lemma py_sort_desc_greatest_last:
  assumes "\<forall>y \<in> set (xs @ [x]). is_number (key y)"
    and "sorted (map (\<lambda>x. num_val (key x)) (rev xs))"
    and "\<forall>y \<in> set xs. num_val (key y) < num_val (key x)"
  shows "py_sort_desc key (xs @ [x]) = Inr (x # xs)"
proof (cases xs)
  case Nil
  then show ?thesis by (simp add: py_sort_desc_def)
next
  case (Cons a as)
  have "sort_key (\<lambda>x. num_val (key x)) (rev (xs @ [x])) = rev xs @ [x]"
    using assms(2,3) by (simp add: sort_key_id_if_sorted insort_key_greatest)
  with assms(1) Cons show ?thesis
    by (simp add: py_sort_desc_def list_all_iff)
qed

lemma sale_record_filter:
  "d \<le> 1 \<Longrightarrow> d < 19/20 \<Longrightarrow> 0 \<le> d \<Longrightarrow> scam_filter (sale_record n d c) = Inr (False)"
  by (auto simp add: scam_filter_def sale_record_def item_get_def item_get_default_def py_or_def
      Let_def py_if_def py_and_def bind_def)

lemma sale_record_info:
  "0 < d \<Longrightarrow> d < 1 \<Longrightarrow> c \<noteq> 0 \<Longrightarrow> make_game_info (sale_record n d c) =
     \<lparr>game_id = PNum (of_nat n), title = PStr ''Game'',
      current_price = PNum (10000 * (1 - d)), original_price = PNum 10000,
      discount_rate = PNum d,
      thumbnail = PStr ''https://cdn.example/capsule.jpg'',
      store_link = PStr ''https://store.example/app'',
      end_date = PStr '''', sale_count = PNum c, is_best_price = False\<rparr>"
  by (simp add: make_game_info_def sale_record_def item_get_def item_get_default_def py_or_def)

lemma sale_record_well_typed: "well_typed (sale_record n d c)"
  by (simp add: well_typed_def sale_record_def item_get_def item_get_default_def py_or_def)

lemma offer_filter: "0 < p \<Longrightarrow> p \<le> 2000 \<Longrightarrow> scam_filter (offer p) = Inr False"
  by (simp add: offer_def scam_filter_def item_get_def item_get_default_def py_or_def py_if_def
      py_and_def bind_def Let_def lower_char_def scam_keywords_def sublist_code)

lemma offer_observes:
  "0 < p \<Longrightarrow> p \<le> 2000 \<Longrightarrow> observes (offer p) k q \<longleftrightarrow> k = PStr ''100'' \<and> q = p"
  by (auto simp add: observes_def offer_filter)
     (simp_all add: offer_def item_get_def py_or_def)

lemma offer_well_typed: "well_typed (offer p)"
  by (simp add: well_typed_def offer_def item_get_def item_get_default_def py_or_def)

lemma nameless_facts:
  "well_typed (nameless d)"
  "nameless d ''game_id'' = None"
  "nameless d ''title_nm'' = None"
  "scam_filter (nameless (3/5)) = Inr False"
  "scam_filter (nameless (16/5)) = Inr True"
  "on_sale tday (make_game_info (nameless (3/5)))"
  "discount_key (make_game_info (nameless (3/5))) = PNum (3/5)"
  by (simp_all add: nameless_def well_typed_def scam_filter_def make_game_info_def on_sale_def
      discount_key_def item_get_def item_get_default_def py_or_def py_if_def py_and_def bind_def
      Let_def)

subsection \<open>The snapshots of the example inputs\<close>

lemma sorted_equal_keys: "\<forall>x \<in> set xs. f x = c \<Longrightarrow> sorted (map f xs)"
  by (induction xs) auto

lemma py_sort_desc_equal_keys:
  assumes "\<forall>x \<in> set xs. key x = PNum c"
  shows "py_sort_desc key xs = Inr xs"
proof (rule py_sort_desc_sorted)
  from assms show "\<forall>x \<in> set xs. is_number (key x)" by simp
  from assms show "sorted (map (\<lambda>x. num_val (key x)) (rev xs))"
    by (intro sorted_equal_keys [where c = c]) simp
qed

lemma classify_all_current:
  assumes c: "classify tday nw items = Inr (st, res, cur)"
    and all: "\<forall>i \<in> set items. scam_filter i = Inr False \<and> on_sale tday (make_game_info i)"
  shows "current_sales st = map make_game_info items"
proof -
  from c have l: "classify_loop tday items init_state = Inr st"
    by (simp add: classify_Inr_iff)
  from all have "filter (\<lambda>i. scam_filter i = Inr False \<and>
      is_current tday (make_game_info i) = Inr True) items = items"
    by (simp add: is_current_on_sale)
  with classify_loop_current_sales [OF l] show ?thesis
    by (simp add: init_state_def)
qed

lemma half_price_facts:
  "scam_filter (half_price n) = Inr False"
  "on_sale tday (make_game_info (half_price n))"
  "discount_key (make_game_info (half_price n)) = PNum (1/2)"
  "game_id (make_game_info (half_price n)) = PNum (of_nat n)"
  "well_typed (half_price n)"
  by (simp_all add: half_price_def sale_record_filter sale_record_info sale_record_well_typed
      on_sale_def discount_key_def py_or_def)

lemma many_sales_snapshot:
  "map_option snap_current_sales (snapshot_of tday nw many_sales)
     = Some (map make_game_info (take 500 many_sales))"
proof -
  have wt: "\<forall>i \<in> set many_sales. well_typed i"
    by (auto simp add: many_sales_def half_price_facts)
  from classify_total [OF wt] obtain st res cur where
    c: "classify tday nw many_sales = Inr (st, res, cur)" by blast
  have "current_sales st = map make_game_info many_sales"
    using c by (rule classify_all_current) (auto simp add: many_sales_def half_price_facts)
  moreover from c have b: "build_result nw many_sales st = Inr (res, cur)"
    by (simp add: classify_Inr_iff)
  moreover have "py_sort_desc discount_key (map make_game_info many_sales)
      = Inr (map make_game_info many_sales)"
    by (rule py_sort_desc_equal_keys [where c = "1/2"])
       (auto simp add: many_sales_def half_price_facts)
  ultimately have "snap_current_sales res = take 500 (map make_game_info many_sales)"
    by (elim build_result_Inr) simp
  with c show ?thesis by (simp add: snapshot_of_def take_map)
qed

lemma deep_discount_facts:
  "scam_filter (deep_discount n) = Inr False"
  "on_sale tday (make_game_info (deep_discount n))"
  "discount_key (make_game_info (deep_discount n)) = PNum (9/10)"
  "sale_count_key (make_game_info (deep_discount n)) = PNum 10"
  "game_id (make_game_info (deep_discount n)) = PNum (of_nat n)"
  "well_typed (deep_discount n)"
  by (simp_all add: deep_discount_def sale_record_filter sale_record_info sale_record_well_typed
      on_sale_def discount_key_def sale_count_key_def py_or_def)

lemma best_seller_facts:
  "scam_filter best_seller = Inr False"
  "on_sale tday (make_game_info best_seller)"
  "discount_key (make_game_info best_seller) = PNum (1/2)"
  "sale_count_key (make_game_info best_seller) = PNum 1000"
  "game_id (make_game_info best_seller) = PNum 501"
  "well_typed best_seller"
  by (simp_all add: best_seller_def sale_record_filter sale_record_info sale_record_well_typed
      on_sale_def discount_key_def sale_count_key_def py_or_def)

lemma crowded_sales_snapshot:
  "map_option snap_top_sales (snapshot_of tday nw crowded_sales)
     = Some (make_game_info best_seller # map make_game_info (map deep_discount [1..<50]))"
  "map_option snap_current_sales (snapshot_of tday nw crowded_sales)
     = Some (map make_game_info (map deep_discount [1..<501]))"
proof -
  let ?D = "map make_game_info (map deep_discount [1..<501])"
  let ?b = "make_game_info best_seller"
  have wt: "\<forall>i \<in> set crowded_sales. well_typed i"
    by (auto simp add: crowded_sales_def deep_discount_facts best_seller_facts)
  from classify_total [OF wt] obtain st res cur where
    c: "classify tday nw crowded_sales = Inr (st, res, cur)" by blast
  have cs: "current_sales st = ?D @ [?b]"
    using classify_all_current [OF c]
    by (auto simp add: crowded_sales_def deep_discount_facts best_seller_facts)
  from c have b: "build_result nw crowded_sales st = Inr (res, cur)"
    by (simp add: classify_Inr_iff)
  have s1: "py_sort_desc discount_key (?D @ [?b]) = Inr (?D @ [?b])"
  proof (rule py_sort_desc_sorted)
    show "\<forall>x \<in> set (?D @ [?b]). is_number (discount_key x)"
      by (auto simp add: deep_discount_facts best_seller_facts)
    have "sorted (map (\<lambda>x. num_val (discount_key x)) (rev ?D))"
      by (rule sorted_equal_keys [where c = "9/10"]) (auto simp add: deep_discount_facts)
    then show "sorted (map (\<lambda>x. num_val (discount_key x)) (rev (?D @ [?b])))"
      by (auto simp add: deep_discount_facts best_seller_facts)
  qed
  have f: "filter (\<lambda>g. py_ge (discount_key g) (PNum (1/2)) = Inr True) (?D @ [?b]) = ?D @ [?b]"
    by (auto simp add: deep_discount_facts best_seller_facts)
  have s2: "py_sort_desc sale_count_key (?D @ [?b]) = Inr (?b # ?D)"
  proof (rule py_sort_desc_greatest_last)
    show "\<forall>y \<in> set (?D @ [?b]). is_number (sale_count_key y)"
      by (auto simp add: deep_discount_facts best_seller_facts)
    show "sorted (map (\<lambda>x. num_val (sale_count_key x)) (rev ?D))"
      by (rule sorted_equal_keys [where c = 10]) (auto simp add: deep_discount_facts)
    show "\<forall>y \<in> set ?D. num_val (sale_count_key y) < num_val (sale_count_key ?b)"
      by (auto simp add: deep_discount_facts best_seller_facts)
  qed
  from b cs s1 f s2 have
    "snap_top_sales res = take 50 (take 50 (?b # ?D))" "snap_current_sales res = take 500 (?D @ [?b])"
    by (elim build_result_Inr, simp)+
  moreover have "take 50 (take 50 (?b # ?D)) = ?b # map make_game_info (map deep_discount [1..<50])"
    by (simp add: take_Cons' take_map)
  ultimately show
    "map_option snap_top_sales (snapshot_of tday nw crowded_sales)
       = Some (make_game_info best_seller # map make_game_info (map deep_discount [1..<50]))"
    "map_option snap_current_sales (snapshot_of tday nw crowded_sales)
       = Some (map make_game_info (map deep_discount [1..<501]))"
    using c by (simp_all add: snapshot_of_def)
qed

lemma py_sort_desc_single: "py_sort_desc key [x] = Inr [x]"
  by (simp add: py_sort_desc_def)

lemma single_record_snapshot:
  assumes c: "classify tday nw [i] = Inr (st, res, cur)"
    and f: "scam_filter i = Inr False" and o: "on_sale tday (make_game_info i)"
    and h: "py_ge (discount_key (make_game_info i)) (PNum (1/2)) = Inr True"
  shows "snap_current_sales res = [make_game_info i]"
    and "snap_top_sales res = [make_game_info i]"
proof -
  from c f o have cs: "current_sales st = [make_game_info i]"
    using classify_all_current [of tday nw "[i]" st res cur] by simp
  from c have b: "build_result nw [i] st = Inr (res, cur)"
    by (simp add: classify_Inr_iff)
  from b obtain popular_sales where
    1: "py_sort_desc discount_key (current_sales st) = Inr cur"
    and 2: "py_sort_desc sale_count_key
       (filter (\<lambda>g. py_ge (discount_key g) (PNum (1/2)) = Inr True) cur) = Inr popular_sales"
    and 3: "snap_current_sales res = take 500 cur"
      "snap_top_sales res = take 50 (take 50 popular_sales)"
    by (elim build_result_Inr) simp
  from 1 cs have cur: "cur = [make_game_info i]"
    by (simp only: py_sort_desc_single sum.inject)
  with 2 h have "popular_sales = [make_game_info i]"
    by (simp add: py_sort_desc_single)
  with cur 3 show "snap_current_sales res = [make_game_info i]"
    and "snap_top_sales res = [make_game_info i]"
    by simp_all
qed

lemma nameless_scam_step:
  "process_item tday (nameless (16/5)) init_state
     = Inr (init_state\<lparr>skipped_scam := 1\<rparr>)"
proof -
  have "skipped_scam init_state + 1 = 1" by (simp add: init_state_def)
  with process_item_scam [OF nameless_facts(5), of tday init_state]
  show ?thesis by (simp only:)
qed

subsection \<open>Sorted lists of the example inputs\<close>

lemma stable_desc_length_filter:
  assumes "stable_desc f xs ys"
  shows "length (filter P ys) = length (filter P xs)"
proof -
  have "length (filter P (rev (sort_key f (rev xs)))) = length (filter P xs)"
    by (simp add: rev_filter [symmetric] filter_sort)
  then show ?thesis by (simp only: stable_desc_unique [OF assms])
qed

lemma stable_desc_length:
  assumes "stable_desc f xs ys"
  shows "length ys = length xs"
  using stable_desc_length_filter [OF assms, of "\<lambda>x. True"] by simp

lemma small_discount_facts:
  "scam_filter (small_discount n) = Inr False"
  "on_sale tday (make_game_info (small_discount n))"
  "discount_of (make_game_info (small_discount n)) = 1/10"
  "well_typed (small_discount n)"
  by (simp_all add: small_discount_def sale_record_filter sale_record_info sale_record_well_typed
      on_sale_def discount_of_def)

lemma big_discount_facts:
  "scam_filter (big_discount n) = Inr False"
  "on_sale tday (make_game_info (big_discount n))"
  "discount_of (make_game_info (big_discount n)) = 3/5"
  "well_typed (big_discount n)"
  by (simp_all add: big_discount_def sale_record_filter sale_record_info sale_record_well_typed
      on_sale_def discount_of_def)

lemma mostly_small_records:
  "current_records tday mostly_small = map make_game_info mostly_small"
  "length (map make_game_info mostly_small) = 610"
  "length (filter (\<lambda>g. 1/2 \<le> discount_of g) (map make_game_info mostly_small)) = 10"
  by (simp_all add: current_records_def mostly_small_def small_discount_facts big_discount_facts
      filter_map o_def)

subsection \<open>The two writes and the whole command\<close>

lemma paths_differ: "file_path e \<noteq> legacy_path e"
  by (simp add: file_path_def legacy_path_def)

lemma save_open_fails:
  "primary_fault e = Open_fails \<Longrightarrow>
     save e target_count res cur files =
       (Inl CommandError, files, [Open_for_writing (file_path e)])"
  by (simp add: save_def write_primary_def write_file_def)

lemma save_write_fails:
  "primary_fault e = Write_fails \<Longrightarrow>
     save e target_count res cur files =
       (Inl CommandError, files(file_path e \<mapsto> Torn (Snapshot res)),
        [Open_for_writing (file_path e)])"
  by (simp add: save_def write_primary_def write_file_def)

lemma save_dump_raises:
  "primary_fault e = Dump_raises \<Longrightarrow>
     save e target_count res cur files =
       (Inl UnicodeEncodeError, files(file_path e \<mapsto> Torn (Snapshot res)),
        [Open_for_writing (file_path e)])"
  by (simp add: save_def write_primary_def write_file_def)

lemma save_message_raises:
  "primary_fault e = No_fault \<Longrightarrow> stdout_fault e Log_complete = Some err \<Longrightarrow>
     save e target_count res cur files =
       (Inl (if err = IOError then CommandError else err),
        files(file_path e \<mapsto> Whole (Snapshot res)),
        [Open_for_writing (file_path e)])"
  by (simp add: save_def write_primary_def write_file_def say_def)

lemma write_legacy_cases:
  "write_legacy e target_count cur files =
     (case legacy_fault e of
        Open_fails \<Rightarrow> (Inl IOError, files, [Open_for_writing (legacy_path e)])
      | Write_fails \<Rightarrow>
          (Inl IOError, files(legacy_path e \<mapsto> Torn (Legacy (py_slice_to target_count cur))),
           [Open_for_writing (legacy_path e)])
      | Dump_raises \<Rightarrow>
          (Inl UnicodeEncodeError,
           files(legacy_path e \<mapsto> Torn (Legacy (py_slice_to target_count cur))),
           [Open_for_writing (legacy_path e)])
      | No_fault \<Rightarrow>
          (case stdout_fault e Log_legacy_updated of
             None \<Rightarrow>
               (Inr (), files(legacy_path e \<mapsto> Whole (Legacy (py_slice_to target_count cur))),
                [Open_for_writing (legacy_path e), Log_legacy_updated])
           | Some err \<Rightarrow>
               (Inl err, files(legacy_path e \<mapsto> Whole (Legacy (py_slice_to target_count cur))),
                [Open_for_writing (legacy_path e)])))"
  by (simp add: write_legacy_def write_file_def say_def split: fault.splits option.splits)

lemma write_legacy_facts:
  assumes "write_legacy e target_count cur files = (r, files', evs)"
  shows "files' (file_path e) = files (file_path e)"
    and "Open_for_writing (legacy_path e) \<in> set evs"
    and "Open_for_writing (file_path e) \<notin> set evs"
    and "Warn_legacy_failed \<notin> set evs"
    and "Log_legacy_updated \<in> set evs \<longleftrightarrow> r = Inr ()"
  using assms paths_differ [of e]
  by (auto simp add: write_legacy_cases split: fault.splits option.splits)

lemma save_attempts_legacy:
  assumes "primary_fault e = No_fault" and "stdout_fault e Log_complete = None"
  shows "save e target_count res cur files =
     (case write_legacy e target_count cur (files(file_path e \<mapsto> Whole (Snapshot res))) of
        (Inl err, files2, evs2) \<Rightarrow>
          (if err = IOError
           then (case stdout_fault e Warn_legacy_failed of
                   None \<Rightarrow>
                     (Inr (), files2,
                      [Open_for_writing (file_path e), Log_complete] @ evs2 @ [Warn_legacy_failed])
                 | Some err' \<Rightarrow>
                     (Inl err', files2, [Open_for_writing (file_path e), Log_complete] @ evs2))
           else (Inl err, files2, [Open_for_writing (file_path e), Log_complete] @ evs2))
      | (Inr u, files2, evs2) \<Rightarrow>
          (Inr (), files2, [Open_for_writing (file_path e), Log_complete] @ evs2))"
  using assms
  by (simp add: save_def write_primary_def write_file_def say_def
      split: prod.splits sum.splits option.splits)

lemma save_primary_whole:
  assumes "primary_fault e = No_fault"
  shows "fst (snd (save e target_count res cur files)) (file_path e) = Some (Whole (Snapshot res))"
proof (cases "stdout_fault e Log_complete")
  case (Some err)
  from save_message_raises [OF assms this] show ?thesis by simp
next
  case None
  obtain r files2 evs2 where
    w: "write_legacy e target_count cur (files(file_path e \<mapsto> Whole (Snapshot res)))
          = (r, files2, evs2)"
    by (rule prod_cases3)
  from write_legacy_facts(1) [OF w]
  have "files2 (file_path e) = Some (Whole (Snapshot res))" by simp
  with save_attempts_legacy [OF assms None, of target_count res cur files] w show ?thesis
    by (simp split: sum.splits option.splits)
qed

lemma save_returns:
  assumes "save e target_count res cur files = (Inr (), files', evs)"
  shows "primary_fault e = No_fault"
  using assms save_open_fails [of e target_count res cur files]
    save_write_fails [of e target_count res cur files]
    save_dump_raises [of e target_count res cur files]
  by (cases "primary_fault e") simp_all

lemma save_opens_primary:
  "Open_for_writing (file_path e) \<in> set (snd (snd (save e target_count res cur files)))"
proof (cases "primary_fault e")
  case No_fault
  show ?thesis
  proof (cases "stdout_fault e Log_complete")
    case (Some err)
    from save_message_raises [OF No_fault this] show ?thesis by simp
  next
    case None
    from save_attempts_legacy [OF No_fault None, of target_count res cur files] show ?thesis
      by (simp split: prod.splits sum.splits option.splits)
  qed
next
  case Open_fails
  from save_open_fails [OF this] show ?thesis by simp
next
  case Write_fails
  from save_write_fails [OF this] show ?thesis by simp
next
  case Dump_raises
  from save_dump_raises [OF this] show ?thesis by simp
qed

lemma save_no_fault:
  assumes "primary_fault e = No_fault" and "stdout_fault e = (\<lambda>m. None)"
  shows "save e target_count res cur files =
       ((if legacy_fault e = Dump_raises then Inl UnicodeEncodeError else Inr ()),
        (case legacy_fault e of
           No_fault \<Rightarrow> files(file_path e \<mapsto> Whole (Snapshot res),
                        legacy_path e \<mapsto> Whole (Legacy (py_slice_to target_count cur)))
         | Open_fails \<Rightarrow> files(file_path e \<mapsto> Whole (Snapshot res))
         | Write_fails \<Rightarrow> files(file_path e \<mapsto> Whole (Snapshot res),
                        legacy_path e \<mapsto> Torn (Legacy (py_slice_to target_count cur)))
         | Dump_raises \<Rightarrow> files(file_path e \<mapsto> Whole (Snapshot res),
                        legacy_path e \<mapsto> Torn (Legacy (py_slice_to target_count cur)))),
        [Open_for_writing (file_path e), Log_complete, Open_for_writing (legacy_path e)]
        @ (case legacy_fault e of
             No_fault \<Rightarrow> [Log_legacy_updated]
           | Open_fails \<Rightarrow> [Warn_legacy_failed]
           | Write_fails \<Rightarrow> [Warn_legacy_failed]
           | Dump_raises \<Rightarrow> []))"
proof -
  from assms(2) have q: "stdout_fault e m = None" for m by simp
  from save_attempts_legacy [OF assms(1) q, of target_count res cur files] show ?thesis
    by (cases "legacy_fault e") (simp_all add: write_legacy_cases q)
qed

lemma handle_classified:
  assumes "classify (env_today e) (env_now e)
             (fst (fetch_loop (env_api e) count (min batch 100) ([], 1))) = Inr (st, res, cur)"
  shows "handle e count batch files =
           (fst (save e count res cur files), fst (snd (save e count res cur files)),
            Log_filtered (skipped_scam st) # snd (snd (save e count res cur files)))"
  using assms
  by (simp add: classify_Inr_iff handle_def Let_def split: prod.splits)

lemma handle_raised:
  assumes "classify (env_today e) (env_now e)
             (fst (fetch_loop (env_api e) count (min batch 100) ([], 1))) = Inl err"
  shows "\<exists>evs. handle e count batch files = (Inl err, files, evs)
           \<and> Open_for_writing (file_path e) \<notin> set evs"
  using assms
  by (auto simp add: classify_def bind_def handle_def Let_def split: sum.splits prod.splits)

lemma handle_cases [consumes 1, case_names raised saved]:
  assumes "handle e count batch files = (r, files', evs)"
  obtains err where "r = Inl err" "files' = files" "Open_for_writing (file_path e) \<notin> set evs"
  | st res cur where
      "classify (env_today e) (env_now e)
         (fst (fetch_loop (env_api e) count (min batch 100) ([], 1))) = Inr (st, res, cur)"
      "r = fst (save e count res cur files)"
      "files' = fst (snd (save e count res cur files))"
      "evs = Log_filtered (skipped_scam st) # snd (snd (save e count res cur files))"
proof (cases "classify (env_today e) (env_now e)
         (fst (fetch_loop (env_api e) count (min batch 100) ([], 1)))")
  case (Inl err)
  from handle_raised [OF this, of files] assms that(1) show thesis by auto
next
  case (Inr x)
  obtain st res cur where "x = (st, res, cur)" by (cases x)
  with Inr handle_classified [of e count batch st res cur files] assms that(2)
  show thesis by auto
qed

subsection \<open>The run against the example server\<close>

lemma classify_loop_skipped:
  "classify_loop tday items st = Inr st' \<Longrightarrow>
     skipped_scam st' = skipped_scam st + length (filter (\<lambda>i. scam_filter i = Inr True) items)"
proof (induction items arbitrary: st)
  case Nil
  then show ?case by simp
next
  case (Cons item items)
  from Cons.prems obtain st1 where
    step: "process_item tday item st = Inr st1" and
    rest: "classify_loop tday items st1 = Inr st'"
    by (auto elim: bind_InrE)
  from step have "skipped_scam st1 = skipped_scam st
      + length (filter (\<lambda>i. scam_filter i = Inr True) [item])"
    by (cases rule: process_item_cases) auto
  with Cons.IH [OF rest] show ?case by simp
qed

lemma demo_fetch:
  "fetch_loop demo_api 2000 100 ([], 1) = ([half_price 1, half_price 2], 2)"
  by (simp add: fetch_loop.simps demo_api_def)

lemma demo_classify:
  obtains st res cur where
    "classify ''20250101'' ''2025-01-01T09:00:00'' [half_price 1, half_price 2]
       = Inr (st, res, cur)"
    "skipped_scam st = 0"
proof -
  have "\<forall>i \<in> set [half_price 1, half_price 2]. well_typed i"
    by (simp add: half_price_facts)
  from classify_total [OF this] obtain st res cur where
    c: "classify ''20250101'' ''2025-01-01T09:00:00'' [half_price 1, half_price 2]
       = Inr (st, res, cur)" by blast
  then have "classify_loop ''20250101'' [half_price 1, half_price 2] init_state = Inr st"
    by (simp add: classify_Inr_iff)
  from classify_loop_skipped [OF this] have "skipped_scam st = 0"
    by (simp add: init_state_def half_price_facts)
  with c that show thesis by blast
qed

lemma demo_handle_any:
  "\<exists>res cur.
     snapshot_of ''20250101'' ''2025-01-01T09:00:00'' [half_price 1, half_price 2] = Some res
   \<and> (\<forall>e files.
        env_api e = demo_api \<and> env_today e = ''20250101'' \<and> env_now e = ''2025-01-01T09:00:00''
        \<longrightarrow> handle e 2000 100 files =
           (fst (save e 2000 res cur files), fst (snd (save e 2000 res cur files)),
            Log_filtered 0 # snd (snd (save e 2000 res cur files))))"
proof -
  obtain st res cur where
    c: "classify ''20250101'' ''2025-01-01T09:00:00'' [half_price 1, half_price 2]
       = Inr (st, res, cur)" and s: "skipped_scam st = 0"
    by (rule demo_classify)
  have "handle e 2000 100 files =
       (fst (save e 2000 res cur files), fst (snd (save e 2000 res cur files)),
        Log_filtered 0 # snd (snd (save e 2000 res cur files)))"
    if "env_api e = demo_api" "env_today e = ''20250101''" "env_now e = ''2025-01-01T09:00:00''"
    for e files
    using handle_classified [of e 2000 100 st res cur files] c s that
    by (simp add: demo_fetch)
  moreover from c have
    "snapshot_of ''20250101'' ''2025-01-01T09:00:00'' [half_price 1, half_price 2] = Some res"
    by (simp add: snapshot_of_def)
  ultimately show ?thesis by blast
qed

lemma demo_env_simps:
  "env_api (demo_env f1 f2) = demo_api"
  "env_today (demo_env f1 f2) = ''20250101''"
  "env_now (demo_env f1 f2) = ''2025-01-01T09:00:00''"
  "base_dir (demo_env f1 f2) = ''/srv/app''"
  "primary_fault (demo_env f1 f2) = f1"
  "legacy_fault (demo_env f1 f2) = f2"
  "stdout_fault (demo_env f1 f2) = (\<lambda>m. None)"
  by (simp_all add: demo_env_def)

lemma demo_handle:
  "\<exists>res cur.
     snapshot_of ''20250101'' ''2025-01-01T09:00:00'' [half_price 1, half_price 2] = Some res
   \<and> (\<forall>f1 f2 files. handle (demo_env f1 f2) 2000 100 files =
       (fst (save (demo_env f1 f2) 2000 res cur files),
        fst (snd (save (demo_env f1 f2) 2000 res cur files)),
        Log_filtered 0 # snd (snd (save (demo_env f1 f2) 2000 res cur files))))"
proof -
  from demo_handle_any obtain res cur where
    s: "snapshot_of ''20250101'' ''2025-01-01T09:00:00'' [half_price 1, half_price 2] = Some res"
    and h: "\<And>e files.
        env_api e = demo_api \<and> env_today e = ''20250101'' \<and> env_now e = ''2025-01-01T09:00:00''
        \<Longrightarrow> handle e 2000 100 files =
           (fst (save e 2000 res cur files), fst (snd (save e 2000 res cur files)),
            Log_filtered 0 # snd (snd (save e 2000 res cur files)))"
    by blast
  have "handle (demo_env f1 f2) 2000 100 files =
       (fst (save (demo_env f1 f2) 2000 res cur files),
        fst (snd (save (demo_env f1 f2) 2000 res cur files)),
        Log_filtered 0 # snd (snd (save (demo_env f1 f2) 2000 res cur files)))" for f1 f2 files
    by (rule h) (simp add: demo_env_simps)
  with s show ?thesis by blast
qed

subsection \<open>The fetch loop from any state\<close>


subsection \<open>The best prices\<close>

lemma observes_unique: "observes i k p \<Longrightarrow> observes i k' q \<Longrightarrow> k' = k \<and> q = p"
  by (simp add: observes_def)

lemma is_lowest_price_iff:
  "is_lowest_price items k p \<longleftrightarrow>
     (\<exists>i \<in> set items. observes i k p) \<and> (\<forall>i \<in> set items. \<forall>q. observes i k q \<longrightarrow> p \<le> q)"
proof -
  have "(observes i k (num_val (py_or (item_get i ''sale_price_va'') (PNum 0)))
          \<longrightarrow> p \<le> num_val (py_or (item_get i ''sale_price_va'') (PNum 0)))
      \<longleftrightarrow> (\<forall>q. observes i k q \<longrightarrow> p \<le> q)" for i
    by (auto simp add: observes_def)
  then show ?thesis
    by (simp add: is_lowest_price_def list_ex_iff list_all_iff)
qed

lemma observes_make_game_info:
  "observes item k p \<longleftrightarrow>
     scam_filter item = Inr False \<and> game_id (make_game_info item) = k
   \<and> current_price (make_game_info item) = PNum p \<and> 0 < p"
  by (simp add: observes_def make_game_info_def)

lemma is_new_best_True_iff:
  "is_new_best bp g = Inr True \<longleftrightarrow>
     truthy (game_id g)
   \<and> (\<exists>p. current_price g = PNum p \<and> 0 < p
        \<and> (case map_of bp (game_id g) of
              None \<Rightarrow> True
            | Some b \<Rightarrow> py_lt (PNum p) (current_price b) = Inr True))"
  by (cases "current_price g")
     (auto simp add: is_new_best_def py_and_Inr_iff split: option.splits)

lemma is_new_best_False_iff:
  "is_new_best bp g = Inr False \<longleftrightarrow>
     \<not> truthy (game_id g)
   \<or> \<not> truthy (current_price g)
   \<or> (\<exists>p. current_price g = PNum p \<and> \<not> 0 < p)
   \<or> (\<exists>p b. current_price g = PNum p \<and> 0 < p \<and> map_of bp (game_id g) = Some b
        \<and> py_lt (PNum p) (current_price b) = Inr False)"
  by (cases "current_price g")
     (auto simp add: is_new_best_def py_and_Inr_iff split: option.splits)

lemma best_inv_skip:
  assumes inv: "best_inv seen bp"
    and low: "\<And>q b p. observes item (game_id b) q \<Longrightarrow> map_of bp (game_id b) = Some b \<Longrightarrow>
                current_price b = PNum p \<Longrightarrow> p \<le> q"
    and dom: "\<And>q. observes item (item_get item ''game_id'') q \<Longrightarrow>
                truthy (item_get item ''game_id'') \<Longrightarrow>
                map_of bp (item_get item ''game_id'') \<noteq> None"
  shows "best_inv (seen @ [item]) bp"
proof -
  from inv have d: "distinct (map fst bp)"
    and e: "\<And>k b. map_of bp k = Some b \<Longrightarrow>
         game_id b = k \<and> truthy k \<and> is_best_price b
       \<and> (\<exists>p. current_price b = PNum p \<and> is_lowest_price seen k p)"
    and c: "\<And>i p. i \<in> set seen \<Longrightarrow> observes i (item_get i ''game_id'') p \<Longrightarrow>
         truthy (item_get i ''game_id'') \<Longrightarrow> map_of bp (item_get i ''game_id'') \<noteq> None"
    unfolding best_inv_def by blast+
  have "\<exists>p. current_price b = PNum p \<and> is_lowest_price (seen @ [item]) k p"
    if m: "map_of bp k = Some b" for k b
  proof -
    from e [OF m] obtain p where k: "game_id b = k" and p: "current_price b = PNum p"
      and l: "is_lowest_price seen k p" by blast
    have "p \<le> q" if "observes item k q" for q
      using low [of b q p] that m k p by simp
    with l have "is_lowest_price (seen @ [item]) k p"
      by (auto simp add: is_lowest_price_iff)
    with p show ?thesis by blast
  qed
  note new = this
  have 2: "\<forall>k b. map_of bp k = Some b \<longrightarrow>
         game_id b = k \<and> truthy k \<and> is_best_price b
       \<and> (\<exists>p. current_price b = PNum p \<and> is_lowest_price (seen @ [item]) k p)"
    using e new by blast
  have 3: "\<forall>i \<in> set (seen @ [item]). \<forall>p.
         observes i (item_get i ''game_id'') p \<and> truthy (item_get i ''game_id'') \<longrightarrow>
           map_of bp (item_get i ''game_id'') \<noteq> None"
  proof (intro ballI allI impI)
    fix i p
    assume "i \<in> set (seen @ [item])"
      and "observes i (item_get i ''game_id'') p \<and> truthy (item_get i ''game_id'')"
    then consider "i \<in> set seen" "observes i (item_get i ''game_id'') p"
        "truthy (item_get i ''game_id'')"
      | "i = item" "observes item (item_get item ''game_id'') p"
        "truthy (item_get item ''game_id'')"
      by auto
    then show "map_of bp (item_get i ''game_id'') \<noteq> None"
    proof cases
      case 1
      then show ?thesis by (rule c)
    next
      case 2
      from dom [OF 2(2,3)] 2(1) show ?thesis by simp
    qed
  qed
  from d 2 3 show ?thesis
    unfolding best_inv_def by (intro conjI)
qed

lemma best_inv_store:
  assumes inv: "best_inv seen bp"
    and f: "scam_filter item = Inr False"
    and t: "truthy (game_id (make_game_info item))"
    and p: "current_price (make_game_info item) = PNum p" "0 < p"
    and lt: "\<And>b. map_of bp (game_id (make_game_info item)) = Some b \<Longrightarrow>
               py_lt (PNum p) (current_price b) = Inr True"
  shows "best_inv (seen @ [item])
           (AList.update (game_id (make_game_info item))
              ((make_game_info item)\<lparr>is_best_price := True\<rparr>) bp)"
proof -
  let ?k = "game_id (make_game_info item)"
  let ?g = "(make_game_info item)\<lparr>is_best_price := True\<rparr>"
  let ?bp = "AList.update ?k ?g bp"
  from inv have d: "distinct (map fst bp)"
    and e: "\<And>k b. map_of bp k = Some b \<Longrightarrow>
         game_id b = k \<and> truthy k \<and> is_best_price b
       \<and> (\<exists>p. current_price b = PNum p \<and> is_lowest_price seen k p)"
    and c: "\<And>i p. i \<in> set seen \<Longrightarrow> observes i (item_get i ''game_id'') p \<Longrightarrow>
         truthy (item_get i ''game_id'') \<Longrightarrow> map_of bp (item_get i ''game_id'') \<noteq> None"
    unfolding best_inv_def by blast+
  have k: "?k = item_get item ''game_id''" by (simp add: make_game_info_def)
  have obs: "observes item ?k p"
    using f p by (simp add: observes_make_game_info)
  have m: "map_of ?bp = (map_of bp)(?k \<mapsto> ?g)" by (rule update_conv')
  have 1: "distinct (map fst ?bp)" using d by (rule distinct_update)
  have low: "is_lowest_price (seen @ [item]) ?k p"
  proof -
    have "p \<le> q" if i: "i \<in> set seen" and o: "observes i ?k q" for i q
    proof -
      from o have ki: "item_get i ''game_id'' = ?k" by (simp add: observes_def)
      with c [OF i, of q] o t have "map_of bp ?k \<noteq> None" by simp
      then obtain b where b: "map_of bp ?k = Some b" by blast
      from e [OF b] obtain pb where pb: "current_price b = PNum pb"
        and l: "is_lowest_price seen ?k pb" by blast
      from l i o have "pb \<le> q" by (auto simp add: is_lowest_price_iff)
      moreover from lt [OF b] pb have "p < pb" by simp
      ultimately show ?thesis by simp
    qed
    moreover have "p \<le> q" if "observes item ?k q" for q
      using observes_unique [OF obs that] by simp
    ultimately show ?thesis using obs by (auto simp add: is_lowest_price_iff)
  qed
  have 2: "\<forall>k b. map_of ?bp k = Some b \<longrightarrow>
         game_id b = k \<and> truthy k \<and> is_best_price b
       \<and> (\<exists>p. current_price b = PNum p \<and> is_lowest_price (seen @ [item]) k p)"
  proof (intro allI impI)
    fix k' b
    assume s: "map_of ?bp k' = Some b"
    show "game_id b = k' \<and> truthy k' \<and> is_best_price b
       \<and> (\<exists>p. current_price b = PNum p \<and> is_lowest_price (seen @ [item]) k' p)"
    proof (cases "k' = ?k")
      case True
      with s m have "b = ?g" by simp
      with True t p low show ?thesis by simp
    next
      case False
      with s m have b: "map_of bp k' = Some b" by simp
      from e [OF b] obtain q where q: "current_price b = PNum q"
        and l: "is_lowest_price seen k' q" by blast
      from False have "\<not> observes item k' r" for r
        by (auto simp add: observes_def k)
      with l have "is_lowest_price (seen @ [item]) k' q"
        by (auto simp add: is_lowest_price_iff)
      with e [OF b] q show ?thesis by blast
    qed
  qed
  have 3: "\<forall>i \<in> set (seen @ [item]). \<forall>p.
         observes i (item_get i ''game_id'') p \<and> truthy (item_get i ''game_id'') \<longrightarrow>
           map_of ?bp (item_get i ''game_id'') \<noteq> None"
  proof (intro ballI allI impI)
    fix i q
    assume i: "i \<in> set (seen @ [item])"
      and o: "observes i (item_get i ''game_id'') q \<and> truthy (item_get i ''game_id'')"
    show "map_of ?bp (item_get i ''game_id'') \<noteq> None"
    proof (cases "item_get i ''game_id'' = ?k")
      case True
      then show ?thesis by (simp only: m) simp
    next
      case False
      with k i have "i \<in> set seen" by auto
      with c o have "map_of bp (item_get i ''game_id'') \<noteq> None" by blast
      with False show ?thesis by (simp only: m) simp
    qed
  qed
  from 1 2 3 show ?thesis
    unfolding best_inv_def by (intro conjI)
qed

lemma process_item_best_inv:
  assumes step: "process_item tday item st = Inr st'"
    and inv: "best_inv seen (best_prices st)"
  shows "best_inv (seen @ [item]) (best_prices st')"
  using step
proof (cases rule: process_item_cases)
  case scam
  then have "\<not> observes item k q" for k q by (simp add: observes_def)
  with inv have "best_inv (seen @ [item]) (best_prices st)"
    by (intro best_inv_skip) simp_all
  with scam show ?thesis by simp
next
  case (keep cur best)
  let ?g = "make_game_info item"
  from inv have e: "\<And>k b. map_of (best_prices st) k = Some b \<Longrightarrow>
         game_id b = k \<and> truthy k \<and> is_best_price b
       \<and> (\<exists>p. current_price b = PNum p \<and> is_lowest_price seen k p)"
    unfolding best_inv_def by blast
  have k: "game_id ?g = item_get item ''game_id''" by (simp add: make_game_info_def)
  show ?thesis
  proof (cases best)
    case True
    with keep(3) obtain p where t: "truthy (game_id ?g)"
      and p: "current_price ?g = PNum p" "0 < p"
      and lt: "case map_of (best_prices st) (game_id ?g) of
              None \<Rightarrow> True
            | Some b \<Rightarrow> py_lt (PNum p) (current_price b) = Inr True"
      by (auto simp add: is_new_best_True_iff)
    from lt have "py_lt (PNum p) (current_price b) = Inr True"
      if "map_of (best_prices st) (game_id ?g) = Some b" for b
      using that by simp
    with inv keep(1) t p have "best_inv (seen @ [item])
           (AList.update (game_id ?g) (?g\<lparr>is_best_price := True\<rparr>) (best_prices st))"
      by (intro best_inv_store) simp_all
    with True keep(4) show ?thesis by simp
  next
    case False
    with keep(3) have nb: "is_new_best (best_prices st) ?g = Inr False" by simp
    have low: "p \<le> q"
      if o: "observes item (game_id b) q" and m: "map_of (best_prices st) (game_id b) = Some b"
        and cp: "current_price b = PNum p" for q b p
    proof -
      from o have g: "game_id ?g = game_id b" and q: "current_price ?g = PNum q" "0 < q"
        by (simp_all add: observes_make_game_info)
      from e [OF m] have "truthy (game_id b)" by simp
      with nb g q m have "py_lt (PNum q) (current_price b) = Inr False"
        by (auto simp add: is_new_best_False_iff)
      with cp show ?thesis by simp
    qed
    have dom: "map_of (best_prices st) (item_get item ''game_id'') \<noteq> None"
      if o: "observes item (item_get item ''game_id'') q"
        and t: "truthy (item_get item ''game_id'')" for q
    proof -
      from o have q: "current_price ?g = PNum q" "0 < q"
        by (simp_all add: observes_make_game_info)
      with nb t k show ?thesis by (auto simp add: is_new_best_False_iff)
    qed
    from inv low dom have "best_inv (seen @ [item]) (best_prices st)"
      by (rule best_inv_skip)
    with False keep(4) show ?thesis by simp
  qed
qed

lemma classify_loop_best_inv:
  "classify_loop tday items st = Inr st' \<Longrightarrow> best_inv seen (best_prices st) \<Longrightarrow>
     best_inv (seen @ items) (best_prices st')"
proof (induction items arbitrary: st seen)
  case Nil
  then show ?case by simp
next
  case (Cons item items)
  from Cons.prems(1) obtain st1 where
    step: "process_item tday item st = Inr st1" and
    rest: "classify_loop tday items st1 = Inr st'"
    by (auto elim: bind_InrE)
  from Cons.IH [OF rest process_item_best_inv [OF step Cons.prems(2)]]
  show ?case by simp
qed

lemma best_inv_init: "best_inv [] (best_prices init_state)"
  by (simp add: best_inv_def init_state_def)

lemma classify_best_prices:
  assumes "classify tday nw items = Inr (st, res, cur)"
  shows "\<exists>bl.
      snap_best_prices res = take 200 bl
    \<and> best_prices_count res = length bl
    \<and> distinct (map game_id bl)
    \<and> (\<forall>b. b \<in> set bl \<longleftrightarrow> map_of (best_prices st) (game_id b) = Some b)
    \<and> best_inv items (best_prices st)"
proof -
  from assms have l: "classify_loop tday items init_state = Inr st"
    and b: "build_result nw items st = Inr (res, cur)"
    by (simp_all add: classify_Inr_iff)
  from classify_loop_best_inv [OF l best_inv_init] have inv: "best_inv items (best_prices st)"
    by simp
  then have d: "distinct (map fst (best_prices st))"
    and e: "\<And>k b. map_of (best_prices st) k = Some b \<Longrightarrow> game_id b = k"
    unfolding best_inv_def by blast+
  have kb: "game_id b = k" if "(k, b) \<in> set (best_prices st)" for k b
    using e map_of_is_SomeI [OF d that] by simp
  have eq: "map (game_id \<circ> snd) (best_prices st) = map fst (best_prices st)"
    by (rule map_cong [OF refl]) (use kb in auto)
  have dg: "distinct (map game_id (map snd (best_prices st)))"
    unfolding map_map eq by (rule d)
  from b obtain bl where
    s: "py_sort_desc discount_key (map snd (best_prices st)) = Inr bl"
    and r: "snap_best_prices res = take 200 bl" "best_prices_count res = length bl"
    by (elim build_result_Inr) simp
  note perm = py_sort_desc_Inr [OF s]
  from dg have a: "distinct (map snd (best_prices st))"
    "inj_on game_id (set (map snd (best_prices st)))"
    by (simp_all only: distinct_map)
  from a(1) perm(3) have db: "distinct bl" by (simp only:)
  from a(2) perm(1) have ib: "inj_on game_id (set bl)" by (simp only:)
  from db ib have 3: "distinct (map game_id bl)" by (simp only: distinct_map simp_thms)
  have 4: "b \<in> set bl \<longleftrightarrow> map_of (best_prices st) (game_id b) = Some b" for b
  proof
    assume "b \<in> set bl"
    with perm(1) obtain k where "(k, b) \<in> set (best_prices st)" by auto
    with kb [OF this] map_of_is_SomeI [OF d this]
    show "map_of (best_prices st) (game_id b) = Some b" by simp
  next
    assume "map_of (best_prices st) (game_id b) = Some b"
    then have "(game_id b, b) \<in> set (best_prices st)" by (rule map_of_SomeD)
    with perm(1) show "b \<in> set bl" by force
  qed
  from r 3 4 inv show ?thesis by blast
qed

lemma length_update_le: "length (AList.update k v al) \<le> Suc (length al)"
  by (induction al) auto

lemma classify_loop_best_length:
  "classify_loop tday items st = Inr st' \<Longrightarrow>
     length (best_prices st') \<le> length (best_prices st) + length items"
proof (induction items arbitrary: st)
  case Nil
  then show ?case by simp
next
  case (Cons item items)
  from Cons.prems obtain st1 where
    step: "process_item tday item st = Inr st1" and
    rest: "classify_loop tday items st1 = Inr st'"
    by (auto elim: bind_InrE)
  from step have "length (best_prices st1) \<le> Suc (length (best_prices st))"
    by (cases rule: process_item_cases) (auto simp add: length_update_le le_SucI)
  with Cons.IH [OF rest] show ?case by simp
qed

lemma best_prices_count_le:
  assumes "classify tday nw items = Inr (st, res, cur)"
  shows "best_prices_count res \<le> length items"
proof -
  from assms have l: "classify_loop tday items init_state = Inr st"
    and b: "build_result nw items st = Inr (res, cur)"
    by (simp_all add: classify_Inr_iff)
  from b obtain bl where
    "py_sort_desc discount_key (map snd (best_prices st)) = Inr bl"
    "best_prices_count res = length bl"
    by (elim build_result_Inr) simp
  with py_sort_desc_Inr(2) [OF this(1)] classify_loop_best_length [OF l]
  show ?thesis by (simp add: init_state_def)
qed

lemma is_new_best_no_id:
  "\<not> truthy (game_id g) \<Longrightarrow> is_new_best bp g = Inr False"
  by (simp add: is_new_best_def py_and_def)

subsection \<open>Two offers of one game\<close>

lemma offer_lowest:
  "is_lowest_price [offer 1000, offer 800] k p \<longleftrightarrow> k = PStr ''100'' \<and> p = 800"
  by (simp add: is_lowest_price_iff offer_observes) auto

lemma offer_game_id: "item_get (offer p) ''game_id'' = PStr ''100''"
  by (simp add: offer_def item_get_def)

subsection \<open>Explicit nulls\<close>

lemma process_item_raises:
  "scam_filter item = Inl e \<Longrightarrow> process_item tday item st = Inl e"
  by (simp add: process_item_def bind_def)

lemma classify_loop_append:
  "classify_loop tday pre st = Inr st1 \<Longrightarrow>
     classify_loop tday (pre @ rest) st = classify_loop tday rest st1"
proof (induction pre arbitrary: st)
  case Nil
  then show ?case by simp
next
  case (Cons item pre)
  from Cons.prems obtain st0 where
    step: "process_item tday item st = Inr st0" and
    rest: "classify_loop tday pre st0 = Inr st1"
    by (auto elim: bind_InrE)
  from Cons.IH [OF rest] step show ?case by (simp add: bind_def)
qed

lemma classify_aborts:
  assumes "scam_filter item = Inl e" and "classify_loop tday pre init_state = Inr st1"
  shows "classify tday nw (pre @ item # post) = Inl e"
proof -
  from assms(1) have "process_item tday item st1 = Inl e" by (rule process_item_raises)
  then have "classify_loop tday (item # post) st1 = Inl e" by (simp add: bind_def)
  with classify_loop_append [OF assms(2), of "item # post"] show ?thesis
    by (simp add: classify_def bind_def)
qed

lemma scam_filter_null_sale_cn:
  assumes "py_or (item_get item ''discount_rt'') (PNum 0) = PNum d"
      and "py_or (item_get item ''full_price_va'') (PNum 0) = PNum orig"
      and "py_or (item_get item ''sale_price_va'') (PNum 0) = PNum cur"
      and "item ''sale_cn'' = Some PNone"
  shows "scam_filter item = (if rejected_early d orig cur then Inr True else Inl TypeError)"
  using assms
  by (auto simp add: scam_filter_def Let_def rejected_early_def item_get_default_def
      py_if_def py_and_def)

lemma scam_filter_null_title:
  assumes "py_or (item_get item ''discount_rt'') (PNum 0) = PNum d"
      and "py_or (item_get item ''full_price_va'') (PNum 0) = PNum orig"
      and "py_or (item_get item ''sale_price_va'') (PNum 0) = PNum cur"
      and "item_get_default item ''sale_cn'' (PNum 0) = PNum cnt"
      and "item ''title_nm'' = Some PNone"
  shows "scam_filter item =
    (if rejected_early d orig cur \<or> (cnt < 3 \<and> d \<ge> 19/20) then Inr True
     else Inl AttributeError)"
proof -
  from assms(5) have "item_get_default item ''title_nm'' (PStr '''') = PNone"
    by (simp add: item_get_default_def)
  with assms(1-4) show ?thesis
    by (auto simp add: scam_filter_def Let_def rejected_early_def py_if_def py_and_def bind_def)
qed

lemma with_nulls_fields:
  "py_or (item_get (with_nulls d) ''discount_rt'') (PNum 0) = (if d = 0 then PNum 0 else PNum d)"
  "py_or (item_get (with_nulls d) ''full_price_va'') (PNum 0) = PNum 10000"
  "py_or (item_get (with_nulls d) ''sale_price_va'') (PNum 0) = PNum 4000"
  "with_nulls d ''sale_cn'' = Some PNone"
  "with_nulls d ''title_nm'' = Some PNone"
  by (simp_all add: with_nulls_def item_get_def py_or_def)

subsection \<open>The current sales\<close>

text \<open>
  Claim C8, as the code has it. The persisted \<open>current_sales\<close> list contains only
  records with a positive discount rate whose end date is the empty string or not before
  today. The list \<open>cur\<close> of the run is made of the records that pass the anomaly filter
  and satisfy both conditions, sorted in descending order of the discount rate, records
  with the same discount rate in the order of the fetch. The persisted list is the
  first 500 entries of \<open>cur\<close> and \<open>current_count\<close> is the length of \<open>cur\<close>; so every
  record that passes the filter and satisfies both conditions is in \<open>cur\<close>, and in the
  persisted list whenever the run has at most 500 current sales.
\<close>

theorem current_sales_view:
  assumes "classify tday nw items = Inr (st, res, cur)"
  shows "(\<forall>g \<in> set (snap_current_sales res). on_sale tday g)
       \<and> stable_desc discount_of (current_records tday items) cur
       \<and> snap_current_sales res = take 500 cur
       \<and> current_count res = length cur
       \<and> (\<forall>i \<in> set items.
            scam_filter i = Inr False \<and> on_sale tday (make_game_info i) \<longrightarrow>
              make_game_info i \<in> set cur
            \<and> (current_count res \<le> 500 \<longrightarrow> make_game_info i \<in> set (snap_current_sales res)))"
proof -
  note cs = classify_current_sales [OF assms]
  have 1: "\<forall>g \<in> set (snap_current_sales res). on_sale tday g"
    using cs(1) by (auto simp add: cs(2) dest!: in_set_takeD)
  have 5: "\<forall>i \<in> set items.
            scam_filter i = Inr False \<and> on_sale tday (make_game_info i) \<longrightarrow>
              make_game_info i \<in> set cur
            \<and> (current_count res \<le> 500 \<longrightarrow> make_game_info i \<in> set (snap_current_sales res))"
    using cs(1) by (auto simp add: cs(2,3))
  from 1 classify_order(1) [OF assms] cs(2) cs(3) 5 show ?thesis by (intro conjI)
qed

text \<open>
  Three records: one at 30 percent off without an end date, one at half price that ended
  yesterday and one at 70 percent off that ends in March. The third and the first are
  persisted, in this order, and the second is not.
\<close>

theorem current_sales_view_witness:
  "\<exists>st res cur.
     classify ''20250101'' ''2025-01-01T09:00:00''
       [sale_record 101 (3/10) 10,
        (sale_record 102 (1/2) 10)(''end_dt'' \<mapsto> PStr ''20241231''),
        (sale_record 103 (7/10) 10)(''end_dt'' \<mapsto> PStr ''20250315'')] = Inr (st, res, cur)
   \<and> snap_current_sales res =
       [make_game_info ((sale_record 103 (7/10) 10)(''end_dt'' \<mapsto> PStr ''20250315'')),
        make_game_info (sale_record 101 (3/10) 10)]
   \<and> list_all (on_sale ''20250101'') (snap_current_sales res)
   \<and> make_game_info ((sale_record 102 (1/2) 10)(''end_dt'' \<mapsto> PStr ''20241231''))
        \<notin> set (snap_current_sales res)"
proof -
  let ?a = "sale_record 101 (3/10) 10"
  let ?b = "(sale_record 102 (1/2) 10)(''end_dt'' \<mapsto> PStr ''20241231'')"
  let ?c = "(sale_record 103 (7/10) 10)(''end_dt'' \<mapsto> PStr ''20250315'')"
  note ev = sale_record_def well_typed_def scam_filter_def make_game_info_def
    on_sale_def item_get_def item_get_default_def py_or_def py_if_def py_and_def bind_def
    Let_def
  have "\<forall>i \<in> set [?a, ?b, ?c]. well_typed i" by (simp add: ev)
  from classify_total [OF this] obtain st res cur where
    c: "classify ''20250101'' ''2025-01-01T09:00:00'' [?a, ?b, ?c] = Inr (st, res, cur)"
    by blast
  note v = current_sales_view [OF c]
  have cr: "current_records ''20250101'' [?a, ?b, ?c] = [make_game_info ?a, make_game_info ?c]"
    by (simp add: current_records_def ev)
  have d: "discount_of (make_game_info ?a) = 3/10" "discount_of (make_game_info ?c) = 7/10"
    by (simp_all add: discount_of_def ev)
  from v have "stable_desc discount_of [make_game_info ?a, make_game_info ?c] cur"
    by (simp only: cr)
  from stable_desc_unique [OF this] have "cur = [make_game_info ?c, make_game_info ?a]"
    by (simp add: d)
  moreover from v have "snap_current_sales res = take 500 cur" by (elim conjE)
  ultimately have s: "snap_current_sales res = [make_game_info ?c, make_game_info ?a]"
    by simp
  have b: "\<not> on_sale ''20250101'' (make_game_info ?b)"
    by (simp add: ev)
  from v have l: "list_all (on_sale ''20250101'') (snap_current_sales res)"
    by (simp add: list_all_iff)
  from v b have n: "make_game_info ?b \<notin> set (snap_current_sales res)" by blast
  from c s l n show ?thesis by (intro exI conjI)
qed

text \<open>
  Claim C8 as it is stated does not hold: of 501 records that all pass the filter, have a
  positive discount rate and no end date, the persisted list holds the first 500, and the
  record of game 501 is not in it.
\<close>

theorem current_sales_cut_at_500:
  "map_option snap_current_sales (snapshot_of ''20250101'' ''2025-01-01T09:00:00'' many_sales)
     = Some (map make_game_info (take 500 many_sales))
 \<and> half_price 501 \<in> set many_sales
 \<and> scam_filter (half_price 501) = Inr False
 \<and> on_sale ''20250101'' (make_game_info (half_price 501))
 \<and> make_game_info (half_price 501) \<notin> set (map make_game_info (take 500 many_sales))"
proof -
  have "take 500 many_sales = map half_price [1..<501]"
    by (simp add: many_sales_def take_map)
  moreover have "make_game_info (half_price 501) \<notin> set (map make_game_info (map half_price [1..<501]))"
  proof
    assume "make_game_info (half_price 501) \<in> set (map make_game_info (map half_price [1..<501]))"
    then obtain n where "n < 501" and
      "make_game_info (half_price 501) = make_game_info (half_price n)" by auto
    then have "game_id (make_game_info (half_price 501)) = game_id (make_game_info (half_price n))"
      by simp
    with \<open>n < 501\<close> show False by (simp add: half_price_facts)
  qed
  moreover have "half_price 501 \<in> set many_sales"
    by (simp add: many_sales_def)
  ultimately show ?thesis
    by (simp add: many_sales_snapshot half_price_facts)
qed

subsection \<open>The top sales\<close>

text \<open>
  Claim C2, as the code has it. The list \<open>cur\<close> of the run is made of the current
  sales, sorted in descending order of the discount rate, records with the same discount
  rate in the order of the fetch; the persisted \<open>current_sales\<close> list is the first 500
  entries of \<open>cur\<close>. The persisted \<open>top_sales\<close> list is the first 50 entries of the
  entries of \<open>cur\<close> with a discount rate of at least 0.5, sorted in descending order of
  the sale count, entries with the same sale count in their order in \<open>cur\<close>. So every
  entry of \<open>top_sales\<close> has a discount rate of at least 0.5 and is an entry of \<open>cur\<close>,
  and it occurs in the persisted \<open>current_sales\<close> (as the same entry, hence with the same
  \<open>game_id\<close>) whenever at most 500 current sales have a discount rate of at least 0.5.
\<close>

theorem top_sales_view:
  assumes "classify tday nw items = Inr (st, res, cur)"
  shows "(\<forall>g \<in> set (snap_top_sales res).
            g \<in> set cur \<and> is_number (discount_rate g) \<and> 1/2 \<le> num_val (discount_rate g))
       \<and> stable_desc discount_of (current_records tday items) cur
       \<and> snap_current_sales res = take 500 cur
       \<and> (\<exists>popular_sales.
            stable_desc sales_of (filter (\<lambda>g. 1/2 \<le> discount_of g) cur) popular_sales
          \<and> snap_top_sales res = take 50 popular_sales)
       \<and> (length (filter (\<lambda>g. 1/2 \<le> discount_of g) cur) \<le> 500 \<longrightarrow>
            set (snap_top_sales res) \<subseteq> set (snap_current_sales res))"
proof -
  from assms have b: "build_result nw items st = Inr (res, cur)"
    by (simp add: classify_Inr_iff)
  from b obtain popular_sales where
    ps: "py_sort_desc sale_count_key
       (filter (\<lambda>g. py_ge (discount_key g) (PNum (1/2)) = Inr True) cur) = Inr popular_sales"
    and top: "snap_top_sales res = take 50 (take 50 popular_sales)"
    by (elim build_result_Inr) simp
  from py_sort_desc_Inr(1) [OF ps]
  have "set popular_sales = {g \<in> set cur. is_number (discount_rate g) \<and> 1/2 \<le> num_val (discount_rate g)}"
    by (simp add: py_ge_half)
  then have 1: "\<forall>g \<in> set (snap_top_sales res).
            g \<in> set cur \<and> is_number (discount_rate g) \<and> 1/2 \<le> num_val (discount_rate g)"
    unfolding top by (auto dest!: in_set_takeD)
  note 2 = classify_order(1) [OF assms]
  note 3 = classify_current_sales(2) [OF assms]
  note 4 = classify_order(2) [OF assms]
  have 5: "length (filter (\<lambda>g. 1/2 \<le> discount_of g) cur) \<le> 500 \<longrightarrow>
            set (snap_top_sales res) \<subseteq> set (snap_current_sales res)"
    using top_within_current [OF assms] by (rule impI)
  from 1 2 3 4 5 show ?thesis by (intro conjI)
qed

text \<open>
  600 current records at 10 percent off and ten at 60 percent off: the run has 610
  current sales, of which 500 are persisted, and the ten entries of \<open>top_sales\<close> are
  all among them.
\<close>

theorem top_sales_view_witness:
  "\<exists>st res cur.
     classify ''20250101'' ''2025-01-01T09:00:00'' mostly_small = Inr (st, res, cur)
   \<and> length cur = 610
   \<and> length (snap_current_sales res) = 500
   \<and> length (snap_top_sales res) = 10
   \<and> list_all (\<lambda>g. is_number (discount_rate g) \<and> 1/2 \<le> num_val (discount_rate g))
        (snap_top_sales res)
   \<and> list_all (\<lambda>g. g \<in> set (snap_current_sales res)) (snap_top_sales res)"
proof -
  have "\<forall>i \<in> set mostly_small. well_typed i"
    by (auto simp add: mostly_small_def small_discount_facts big_discount_facts)
  from classify_total [OF this] obtain st res cur where
    c: "classify ''20250101'' ''2025-01-01T09:00:00'' mostly_small = Inr (st, res, cur)"
    by blast
  note v = top_sales_view [OF c]
  from v have s: "stable_desc discount_of (map make_game_info mostly_small) cur"
    by (simp only: mostly_small_records(1))
  from stable_desc_length [OF s] have len: "length cur = 610"
    by (simp only: mostly_small_records(2))
  from stable_desc_length_filter [OF s]
  have half: "length (filter (\<lambda>g. 1/2 \<le> discount_of g) cur) = 10"
    by (simp only: mostly_small_records(3))
  from v have cs: "snap_current_sales res = take 500 cur" by (elim conjE)
  with len have l500: "length (snap_current_sales res) = 500" by simp
  from v obtain popular_sales where
    p: "stable_desc sales_of (filter (\<lambda>g. 1/2 \<le> discount_of g) cur) popular_sales" and
    top: "snap_top_sales res = take 50 popular_sales"
    by (elim conjE exE)
  from stable_desc_length [OF p] half top have l10: "length (snap_top_sales res) = 10" by simp
  from v have a: "list_all (\<lambda>g. is_number (discount_rate g) \<and> 1/2 \<le> num_val (discount_rate g))
        (snap_top_sales res)"
    by (simp add: list_all_iff)
  from v have "length (filter (\<lambda>g. 1/2 \<le> discount_of g) cur) \<le> 500 \<longrightarrow>
      set (snap_top_sales res) \<subseteq> set (snap_current_sales res)"
    by (elim conjE)
  moreover from half have "length (filter (\<lambda>g. 1/2 \<le> discount_of g) cur) \<le> 500"
    by (simp only:)
  ultimately have "set (snap_top_sales res) \<subseteq> set (snap_current_sales res)" by (rule mp)
  then have b: "list_all (\<lambda>g. g \<in> set (snap_current_sales res)) (snap_top_sales res)"
    by (auto simp add: list_all_iff)
  from c len l500 l10 a b show ?thesis by (intro exI conjI)
qed

text \<open>
  Claim C2 as it is stated does not hold: with 500 current games at 90 percent off and
  one at half price that sold best, the persisted \<open>current_sales\<close> are the 500 games
  with the higher discount, while \<open>top_sales\<close>, taken from the list before it is cut,
  starts with the best seller, whose \<open>game_id\<close> occurs nowhere in the persisted
  \<open>current_sales\<close>.
\<close>

theorem top_sales_outside_current_sales:
  "map_option snap_top_sales
     (snapshot_of ''20250101'' ''2025-01-01T09:00:00'' crowded_sales)
     = Some (make_game_info best_seller # map make_game_info (map deep_discount [1..<50]))
 \<and> map_option snap_current_sales
     (snapshot_of ''20250101'' ''2025-01-01T09:00:00'' crowded_sales)
     = Some (map make_game_info (map deep_discount [1..<501]))
 \<and> game_id (make_game_info best_seller)
     \<notin> game_id ` set (map make_game_info (map deep_discount [1..<501]))"
  by (auto simp add: crowded_sales_snapshot deep_discount_facts best_seller_facts)

subsection \<open>The caps of the snapshot\<close>

text \<open>
  Claim C7. Whenever the command returns without an exception, the primary file holds
  the complete snapshot of the run, and in it \<open>current_sales\<close> has at most 500
  entries, \<open>top_sales\<close> at most 50 and \<open>best_prices\<close> at most 200, whatever the server
  returned.
\<close>

theorem snapshot_caps:
  assumes "handle e count batch files = (Inr (), files', evs)"
  shows "\<exists>res. files' (file_path e) = Some (Whole (Snapshot res))
           \<and> length (snap_current_sales res) \<le> 500
           \<and> length (snap_top_sales res) \<le> 50
           \<and> length (snap_best_prices res) \<le> 200"
  using assms
proof (cases rule: handle_cases)
  case (raised err)
  then show ?thesis by simp
next
  case (saved st res cur)
  from saved(1) have "build_result (env_now e)
      (fst (fetch_loop (env_api e) count (min batch 100) ([], 1))) st = Inr (res, cur)"
    by (simp add: classify_Inr_iff)
  then have caps: "length (snap_current_sales res) \<le> 500
           \<and> length (snap_top_sales res) \<le> 50
           \<and> length (snap_best_prices res) \<le> 200"
    by (elim build_result_Inr) simp
  from saved(2,3) have "save e count res cur files
      = (Inr (), files', snd (snd (save e count res cur files)))"
    by (simp add: prod_eq_iff)
  then have "primary_fault e = No_fault" by (rule save_returns)
  from save_primary_whole [OF this, of count res cur files] saved(3)
  have "files' (file_path e) = Some (Whole (Snapshot res))" by simp
  with caps show ?thesis by blast
qed

text \<open>A run against the example server with both writes succeeding.\<close>

theorem snapshot_caps_witness:
  "\<exists>files' evs res.
     handle (demo_env No_fault No_fault) 2000 100 Map.empty = (Inr (), files', evs)
   \<and> files' (file_path (demo_env No_fault No_fault)) = Some (Whole (Snapshot res))
   \<and> length (snap_current_sales res) \<le> 500
   \<and> length (snap_top_sales res) \<le> 50
   \<and> length (snap_best_prices res) \<le> 200"
proof -
  let ?e = "demo_env No_fault No_fault"
  from demo_handle obtain res cur where
    h: "\<And>f1 f2 files. handle (demo_env f1 f2) 2000 100 files =
       (fst (save (demo_env f1 f2) 2000 res cur files),
        fst (snd (save (demo_env f1 f2) 2000 res cur files)),
        Log_filtered 0 # snd (snd (save (demo_env f1 f2) 2000 res cur files)))"
    by blast
  have pf: "primary_fault ?e = No_fault" and lf: "legacy_fault ?e = No_fault"
    and sf: "stdout_fault ?e = (\<lambda>m. None)"
    by (simp_all add: demo_env_def)
  obtain r files' evs where run: "handle ?e 2000 100 Map.empty = (r, files', evs)"
    by (rule prod_cases3)
  with h save_no_fault [OF pf sf, of 2000 res cur Map.empty] lf have "r = Inr ()" by simp
  with run have run': "handle ?e 2000 100 Map.empty = (Inr (), files', evs)" by simp
  from snapshot_caps [OF run'] run' show ?thesis by blast
qed

subsection \<open>A failure of the primary write\<close>

text \<open>
  Claim C1, as the code has it. When the run gets as far as opening the primary file
  and that write fails with an I/O error (the \<open>open\<close> or the write into the file raises
  \<open>IOError\<close>), the run reports failure to the caller (\<open>CommandError\<close>) and the legacy
  write is not attempted: the legacy file is not opened, it stays as it was, and nothing
  is logged about it. An exception of \<open>json.dump\<close> that is not an \<open>IOError\<close> is not
  caught: from the primary write it leaves the run as it is, again without the legacy
  write. The same holds when the primary file was written and one of the messages that
  follow it in the same \<open>try\<close> block raises: an \<open>IOError\<close> becomes \<open>CommandError\<close>, any
  other exception leaves the run as it is, and the legacy write is not attempted.

  Otherwise the legacy write is attempted. When it succeeds and its message is written,
  the run reports success. When it fails with an \<open>IOError\<close>, or its message does, the
  warning is written and the run still reports success, unless the warning itself raises,
  which leaves the run with that exception. An exception of the legacy write or of its
  message that is not an \<open>IOError\<close> leaves the run as it is, with neither message.
\<close>

theorem primary_write_failure:
  assumes "handle e count batch files = (r, files', evs)"
    and "Open_for_writing (file_path e) \<in> set evs"
  shows "(primary_fault e = Open_fails \<or> primary_fault e = Write_fails \<longrightarrow>
            r = Inl CommandError \<and> legacy_untouched e files files' evs)
       \<and> (primary_fault e = Dump_raises \<longrightarrow>
            r = Inl UnicodeEncodeError \<and> legacy_untouched e files files' evs)
       \<and> (primary_fault e = No_fault \<longrightarrow>
            (\<forall>err. stdout_fault e Log_complete = Some err \<longrightarrow>
               r = Inl (if err = IOError then CommandError else err)
             \<and> legacy_untouched e files files' evs)
          \<and> (stdout_fault e Log_complete = None \<longrightarrow>
               Open_for_writing (legacy_path e) \<in> set evs
             \<and> (legacy_fault e = No_fault \<and> stdout_fault e Log_legacy_updated = None \<longrightarrow>
                  r = Inr () \<and> Log_legacy_updated \<in> set evs \<and> Warn_legacy_failed \<notin> set evs)
             \<and> (legacy_fault e = Open_fails \<or> legacy_fault e = Write_fails
                  \<or> legacy_fault e = No_fault \<and> stdout_fault e Log_legacy_updated = Some IOError \<longrightarrow>
                  Log_legacy_updated \<notin> set evs
                \<and> (stdout_fault e Warn_legacy_failed = None \<longrightarrow>
                     r = Inr () \<and> Warn_legacy_failed \<in> set evs)
                \<and> (\<forall>err. stdout_fault e Warn_legacy_failed = Some err \<longrightarrow>
                     r = Inl err \<and> Warn_legacy_failed \<notin> set evs))
             \<and> (legacy_fault e = Dump_raises \<longrightarrow>
                  r = Inl UnicodeEncodeError
                \<and> Log_legacy_updated \<notin> set evs \<and> Warn_legacy_failed \<notin> set evs)
             \<and> (\<forall>err. legacy_fault e = No_fault
                    \<and> stdout_fault e Log_legacy_updated = Some err \<and> err \<noteq> IOError \<longrightarrow>
                  r = Inl err
                \<and> Log_legacy_updated \<notin> set evs \<and> Warn_legacy_failed \<notin> set evs)))"
  using assms(1)
proof (cases rule: handle_cases)
  case (raised err)
  with assms(2) show ?thesis by simp
next
  case (saved st res cur)
  show ?thesis
  proof (cases "primary_fault e")
    case No_fault
    show ?thesis
    proof (cases "stdout_fault e Log_complete")
      case (Some err)
      from save_message_raises [OF No_fault Some, of count res cur files]
        saved(2-4) No_fault Some paths_differ [of e]
      show ?thesis by (simp add: legacy_untouched_def)
    next
      case None
      from save_attempts_legacy [OF No_fault None, of count res cur files]
        saved(2-4) No_fault None paths_differ [of e]
      show ?thesis
        by (cases "legacy_fault e"; cases "stdout_fault e Log_legacy_updated";
            cases "stdout_fault e Warn_legacy_failed")
           (simp_all add: write_legacy_cases)
    qed
  next
    case Open_fails
    from save_open_fails [OF this] saved(2-4) Open_fails paths_differ [of e] show ?thesis
      by (simp add: legacy_untouched_def)
  next
    case Write_fails
    from save_write_fails [OF this] saved(2-4) Write_fails paths_differ [of e] show ?thesis
      by (simp add: legacy_untouched_def)
  next
    case Dump_raises
    from save_dump_raises [OF this] saved(2-4) Dump_raises paths_differ [of e] show ?thesis
      by (simp add: legacy_untouched_def)
  qed
qed

text \<open>
  Four runs against the example server: one whose primary write fails with an I/O
  error after the file was opened, one whose primary write succeeds and whose legacy
  write fails with an I/O error, one whose legacy document cannot be encoded, and one
  whose two writes would succeed but whose standard output was closed before the
  messages of the primary write.
\<close>

theorem primary_write_failure_witness:
  "(\<exists>files' evs.
     handle (demo_env Write_fails Open_fails) 2000 100 Map.empty = (Inl CommandError, files', evs)
   \<and> Open_for_writing (file_path (demo_env Write_fails Open_fails)) \<in> set evs
   \<and> Open_for_writing (legacy_path (demo_env Write_fails Open_fails)) \<notin> set evs
   \<and> Warn_legacy_failed \<notin> set evs
   \<and> files' (legacy_path (demo_env Write_fails Open_fails)) = None)
 \<and> (\<exists>files' evs.
     handle (demo_env No_fault Write_fails) 2000 100 Map.empty = (Inr (), files', evs)
   \<and> Open_for_writing (file_path (demo_env No_fault Write_fails)) \<in> set evs
   \<and> Open_for_writing (legacy_path (demo_env No_fault Write_fails)) \<in> set evs
   \<and> Warn_legacy_failed \<in> set evs)
 \<and> (\<exists>files' evs.
     handle (demo_env No_fault Dump_raises) 2000 100 Map.empty
       = (Inl UnicodeEncodeError, files', evs)
   \<and> Open_for_writing (file_path (demo_env No_fault Dump_raises)) \<in> set evs
   \<and> Open_for_writing (legacy_path (demo_env No_fault Dump_raises)) \<in> set evs
   \<and> Warn_legacy_failed \<notin> set evs)
 \<and> (\<exists>files' evs.
     handle ((demo_env No_fault No_fault)\<lparr>stdout_fault := closed_after_filtered\<rparr>)
       2000 100 Map.empty = (Inl CommandError, files', evs)
   \<and> Open_for_writing (file_path (demo_env No_fault No_fault)) \<in> set evs
   \<and> Open_for_writing (legacy_path (demo_env No_fault No_fault)) \<notin> set evs
   \<and> files' (legacy_path (demo_env No_fault No_fault)) = None)"
proof -
  let ?e = "demo_env Write_fails Open_fails"
  let ?g = "demo_env No_fault Write_fails"
  let ?h = "demo_env No_fault Dump_raises"
  let ?k = "(demo_env No_fault No_fault)\<lparr>stdout_fault := closed_after_filtered\<rparr>"
  from demo_handle obtain res cur where
    h: "\<And>f1 f2 files. handle (demo_env f1 f2) 2000 100 files =
       (fst (save (demo_env f1 f2) 2000 res cur files),
        fst (snd (save (demo_env f1 f2) 2000 res cur files)),
        Log_filtered 0 # snd (snd (save (demo_env f1 f2) 2000 res cur files)))"
    by blast
  have pf: "primary_fault ?e = Write_fails" by (simp add: demo_env_def)
  obtain r files' evs where run: "handle ?e 2000 100 Map.empty = (r, files', evs)"
    by (rule prod_cases3)
  with h save_write_fails [OF pf, of 2000 res cur Map.empty]
  have att: "Open_for_writing (file_path ?e) \<in> set evs" by auto
  from primary_write_failure [OF run att] pf
  have "r = Inl CommandError \<and> legacy_untouched ?e Map.empty files' evs" by simp
  with run att
  have 1: "\<exists>files' evs.
     handle ?e 2000 100 Map.empty = (Inl CommandError, files', evs)
   \<and> Open_for_writing (file_path ?e) \<in> set evs
   \<and> Open_for_writing (legacy_path ?e) \<notin> set evs
   \<and> Warn_legacy_failed \<notin> set evs
   \<and> files' (legacy_path ?e) = None" by (simp add: legacy_untouched_def)
  have pg: "primary_fault ?g = No_fault" "legacy_fault ?g = Write_fails"
    "stdout_fault ?g Log_complete = None" "stdout_fault ?g Warn_legacy_failed = None"
    and sg: "stdout_fault ?g = (\<lambda>m. None)"
    by (simp_all add: demo_env_def)
  obtain r2 files2 evs2 where run2: "handle ?g 2000 100 Map.empty = (r2, files2, evs2)"
    by (rule prod_cases3)
  with h save_no_fault [OF pg(1) sg, of 2000 res cur Map.empty]
  have att2: "Open_for_writing (file_path ?g) \<in> set evs2" by auto
  from primary_write_failure [OF run2 att2] pg run2 att2
  have 2: "\<exists>files' evs.
     handle ?g 2000 100 Map.empty = (Inr (), files', evs)
   \<and> Open_for_writing (file_path ?g) \<in> set evs
   \<and> Open_for_writing (legacy_path ?g) \<in> set evs
   \<and> Warn_legacy_failed \<in> set evs" by simp
  have ph: "primary_fault ?h = No_fault" "legacy_fault ?h = Dump_raises"
    "stdout_fault ?h Log_complete = None"
    and sh: "stdout_fault ?h = (\<lambda>m. None)"
    by (simp_all add: demo_env_def)
  obtain r3 files3 evs3 where run3: "handle ?h 2000 100 Map.empty = (r3, files3, evs3)"
    by (rule prod_cases3)
  with h save_no_fault [OF ph(1) sh, of 2000 res cur Map.empty]
  have att3: "Open_for_writing (file_path ?h) \<in> set evs3" by auto
  from primary_write_failure [OF run3 att3] ph run3 att3
  have 3: "\<exists>files' evs.
     handle ?h 2000 100 Map.empty = (Inl UnicodeEncodeError, files', evs)
   \<and> Open_for_writing (file_path ?h) \<in> set evs
   \<and> Open_for_writing (legacy_path ?h) \<in> set evs
   \<and> Warn_legacy_failed \<notin> set evs" by simp
  have pk: "primary_fault ?k = No_fault" "stdout_fault ?k Log_complete = Some IOError"
    and paths: "file_path ?k = file_path (demo_env No_fault No_fault)"
      "legacy_path ?k = legacy_path (demo_env No_fault No_fault)"
    by (simp_all add: demo_env_def closed_after_filtered_def file_path_def legacy_path_def)
  obtain r4 files4 evs4 where run4: "handle ?k 2000 100 Map.empty = (r4, files4, evs4)"
    by (rule prod_cases3)
  from demo_handle_any obtain res4 cur4 where
    g: "\<And>e files.
        env_api e = demo_api \<and> env_today e = ''20250101'' \<and> env_now e = ''2025-01-01T09:00:00''
        \<Longrightarrow> handle e 2000 100 files =
           (fst (save e 2000 res4 cur4 files), fst (snd (save e 2000 res4 cur4 files)),
            Log_filtered 0 # snd (snd (save e 2000 res4 cur4 files)))"
    by blast
  have "handle ?k 2000 100 Map.empty =
           (fst (save ?k 2000 res4 cur4 Map.empty), fst (snd (save ?k 2000 res4 cur4 Map.empty)),
            Log_filtered 0 # snd (snd (save ?k 2000 res4 cur4 Map.empty)))"
    by (rule g) (simp add: demo_env_def)
  with run4 have "evs4 = Log_filtered 0 # snd (snd (save ?k 2000 res4 cur4 Map.empty))"
    by simp
  with save_opens_primary [of ?k 2000 res4 cur4 Map.empty]
  have att4: "Open_for_writing (file_path ?k) \<in> set evs4"
    by (simp only: list.set insert_iff) simp
  from primary_write_failure [OF run4 att4] pk
  have "r4 = Inl CommandError \<and> legacy_untouched ?k Map.empty files4 evs4" by simp
  with run4 att4
  have 4: "\<exists>files' evs.
     handle ?k 2000 100 Map.empty = (Inl CommandError, files', evs)
   \<and> Open_for_writing (file_path (demo_env No_fault No_fault)) \<in> set evs
   \<and> Open_for_writing (legacy_path (demo_env No_fault No_fault)) \<notin> set evs
   \<and> files' (legacy_path (demo_env No_fault No_fault)) = None"
    by (simp add: legacy_untouched_def paths)
  from 1 2 3 4 show ?thesis by (intro conjI)
qed

text \<open>
  Claim C1 as it is stated does not hold: when the primary file cannot be opened, the
  run ends with \<open>CommandError\<close> after that one attempt; the legacy file is never opened
  and does not exist afterwards.
\<close>

theorem legacy_write_skipped:
  "handle (demo_env Open_fails No_fault) 2000 100 Map.empty =
     (Inl CommandError, Map.empty,
      [Log_filtered 0, Open_for_writing ''/srv/app/users/steam_sale_data.json''])
 \<and> legacy_path (demo_env Open_fails No_fault) = ''/srv/app/users/steam_sale_dataset_fast.json''"
proof -
  from demo_handle obtain res cur where
    h: "\<And>f1 f2 files. handle (demo_env f1 f2) 2000 100 files =
       (fst (save (demo_env f1 f2) 2000 res cur files),
        fst (snd (save (demo_env f1 f2) 2000 res cur files)),
        Log_filtered 0 # snd (snd (save (demo_env f1 f2) 2000 res cur files)))"
    by blast
  have "primary_fault (demo_env Open_fails No_fault) = Open_fails"
    by (simp add: demo_env_def)
  from save_open_fails [OF this] show ?thesis
    by (simp add: h) (simp add: file_path_def legacy_path_def demo_env_def)
qed

subsection \<open>The primary file is written in place\<close>

text \<open>
  Claim C6, as the code has it. The primary snapshot is written in place, into the file
  opened with mode \<open>w\<close>: when the file cannot be opened its previous content is
  unchanged; when the write fails after the file was opened, with an I/O error or with
  an exception of \<open>json.dump\<close>, the previous content is lost and the file is left
  incomplete; when the write succeeds the file holds the complete snapshot.
\<close>

theorem primary_write_in_place:
  assumes "handle e count batch files = (r, files', evs)"
    and "Open_for_writing (file_path e) \<in> set evs"
  shows "(primary_fault e = Open_fails \<longrightarrow> files' (file_path e) = files (file_path e))
       \<and> (primary_fault e = Write_fails \<longrightarrow> torn (files' (file_path e)))
       \<and> (primary_fault e = Dump_raises \<longrightarrow> torn (files' (file_path e)))
       \<and> (primary_fault e = No_fault \<longrightarrow>
            (\<exists>res. files' (file_path e) = Some (Whole (Snapshot res))))"
  using assms(1)
proof (cases rule: handle_cases)
  case (raised err)
  with assms(2) show ?thesis by simp
next
  case (saved st res cur)
  show ?thesis
  proof (cases "primary_fault e")
    case No_fault
    from save_primary_whole [OF this, of count res cur files] saved(3) No_fault show ?thesis
      by simp
  next
    case Open_fails
    from save_open_fails [OF this] saved(2-4) Open_fails show ?thesis by simp
  next
    case Write_fails
    from save_write_fails [OF this] saved(2-4) Write_fails show ?thesis by simp
  next
    case Dump_raises
    from save_dump_raises [OF this] saved(2-4) Dump_raises show ?thesis by simp
  qed
qed

text \<open>
  A run whose primary file cannot be opened leaves the snapshot of the earlier run in
  place.
\<close>

theorem primary_write_in_place_witness:
  "\<exists>r files' evs.
     handle (demo_env Open_fails No_fault) 2000 100
       [file_path (demo_env Open_fails No_fault) \<mapsto> Whole (Snapshot old_snapshot)]
       = (r, files', evs)
   \<and> Open_for_writing (file_path (demo_env Open_fails No_fault)) \<in> set evs
   \<and> files' (file_path (demo_env Open_fails No_fault)) = Some (Whole (Snapshot old_snapshot))"
proof -
  let ?e = "demo_env Open_fails No_fault"
  let ?files = "[file_path ?e \<mapsto> Whole (Snapshot old_snapshot)]"
  from demo_handle obtain res cur where
    h: "\<And>f1 f2 files. handle (demo_env f1 f2) 2000 100 files =
       (fst (save (demo_env f1 f2) 2000 res cur files),
        fst (snd (save (demo_env f1 f2) 2000 res cur files)),
        Log_filtered 0 # snd (snd (save (demo_env f1 f2) 2000 res cur files)))"
    by blast
  have pf: "primary_fault ?e = Open_fails" by (simp add: demo_env_def)
  obtain r files' evs where run: "handle ?e 2000 100 ?files = (r, files', evs)"
    by (rule prod_cases3)
  with h save_open_fails [OF pf, of 2000 res cur ?files]
  have att: "Open_for_writing (file_path ?e) \<in> set evs" by auto
  from primary_write_in_place [OF run att] pf run att show ?thesis by simp
qed

text \<open>
  Claim C6 as it is stated does not hold: a run whose primary write fails partway ends
  with \<open>CommandError\<close> and leaves an incomplete file where the snapshot of the earlier
  run was.
\<close>

theorem failed_write_leaves_torn_file:
  "fst (handle (demo_env Write_fails No_fault) 2000 100
          [''/srv/app/users/steam_sale_data.json'' \<mapsto> Whole (Snapshot old_snapshot)])
     = Inl CommandError
 \<and> torn (fst (snd (handle (demo_env Write_fails No_fault) 2000 100
          [''/srv/app/users/steam_sale_data.json'' \<mapsto> Whole (Snapshot old_snapshot)]))
        ''/srv/app/users/steam_sale_data.json'')
 \<and> file_path (demo_env Write_fails No_fault) = ''/srv/app/users/steam_sale_data.json''"
proof -
  from demo_handle obtain res cur where
    h: "\<And>f1 f2 files. handle (demo_env f1 f2) 2000 100 files =
       (fst (save (demo_env f1 f2) 2000 res cur files),
        fst (snd (save (demo_env f1 f2) 2000 res cur files)),
        Log_filtered 0 # snd (snd (save (demo_env f1 f2) 2000 res cur files)))"
    by blast
  have "primary_fault (demo_env Write_fails No_fault) = Write_fails"
    by (simp add: demo_env_def)
  from save_write_fails [OF this] show ?thesis
    by (simp add: h) (simp add: file_path_def demo_env_def)
qed

subsection \<open>The result of the fetch loop\<close>




subsection \<open>The best price of each game\<close>

text \<open>
  Claim C4. In the persisted \<open>best_prices\<close> list no two entries have the same
  \<open>game_id\<close>, and the current price of every entry is the minimum of the positive
  current prices over the occurrences of its \<open>game_id\<close> among the records of the run
  that pass the filter (of which there is at least one). An entry exists for every such
  game whose \<open>game_id\<close> is truthy, as long as the run tracks at most 200 games.
\<close>

theorem best_prices_view:
  assumes "classify tday nw items = Inr (st, res, cur)"
  shows "distinct (map game_id (snap_best_prices res))
       \<and> (\<forall>b \<in> set (snap_best_prices res).
            \<exists>p. current_price b = PNum p \<and> is_lowest_price items (game_id b) p)
       \<and> (\<forall>i \<in> set items. \<forall>p.
            observes i (item_get i ''game_id'') p \<and> truthy (item_get i ''game_id'')
            \<and> best_prices_count res \<le> 200 \<longrightarrow>
              item_get i ''game_id'' \<in> game_id ` set (snap_best_prices res))"
proof -
  from classify_best_prices [OF assms] obtain bl where
    r: "snap_best_prices res = take 200 bl" "best_prices_count res = length bl"
    and d: "distinct (map game_id bl)"
    and m: "\<And>b. b \<in> set bl \<longleftrightarrow> map_of (best_prices st) (game_id b) = Some b"
    and inv: "best_inv items (best_prices st)"
    by blast
  from inv have e: "\<And>k b. map_of (best_prices st) k = Some b \<Longrightarrow>
         (\<exists>p. current_price b = PNum p \<and> is_lowest_price items k p)"
    and g: "\<And>k b. map_of (best_prices st) k = Some b \<Longrightarrow> game_id b = k"
    and c: "\<And>i p. i \<in> set items \<Longrightarrow> observes i (item_get i ''game_id'') p \<Longrightarrow>
         truthy (item_get i ''game_id'') \<Longrightarrow>
         map_of (best_prices st) (item_get i ''game_id'') \<noteq> None"
    unfolding best_inv_def by blast+
  from d have 1: "distinct (map game_id (snap_best_prices res))"
    unfolding r by (simp add: take_map [symmetric])
  have 2: "\<forall>b \<in> set (snap_best_prices res).
            \<exists>p. current_price b = PNum p \<and> is_lowest_price items (game_id b) p"
  proof
    fix b
    assume "b \<in> set (snap_best_prices res)"
    then have "b \<in> set bl" unfolding r by (rule in_set_takeD)
    with m have "map_of (best_prices st) (game_id b) = Some b" by simp
    then show "\<exists>p. current_price b = PNum p \<and> is_lowest_price items (game_id b) p"
      by (rule e)
  qed
  have 3: "\<forall>i \<in> set items. \<forall>p.
            observes i (item_get i ''game_id'') p \<and> truthy (item_get i ''game_id'')
            \<and> best_prices_count res \<le> 200 \<longrightarrow>
              item_get i ''game_id'' \<in> game_id ` set (snap_best_prices res)"
  proof (intro ballI allI impI)
    fix i p
    assume i: "i \<in> set items"
      and "observes i (item_get i ''game_id'') p \<and> truthy (item_get i ''game_id'')
            \<and> best_prices_count res \<le> 200"
    then have o: "observes i (item_get i ''game_id'') p" and t: "truthy (item_get i ''game_id'')"
      and n: "best_prices_count res \<le> 200" by simp_all
    from c [OF i o t] obtain b where b: "map_of (best_prices st) (item_get i ''game_id'') = Some b"
      by blast
    from g [OF b] b m have "b \<in> set bl" by simp
    moreover from n r have "snap_best_prices res = bl" by simp
    ultimately show "item_get i ''game_id'' \<in> game_id ` set (snap_best_prices res)"
      using g [OF b] by force
  qed
  from 1 2 3 show ?thesis by (intro conjI)
qed

text \<open>
  Two records of the game \<open>100\<close> with the current prices 1000 and 800: the list has
  exactly one entry, for the game \<open>100\<close> at the price 800.
\<close>

theorem best_prices_view_witness:
  "\<exists>st res cur.
     classify ''20250101'' ''2025-01-01T09:00:00'' [offer 1000, offer 800] = Inr (st, res, cur)
   \<and> length (snap_best_prices res) = 1
   \<and> list_all (\<lambda>b. game_id b = PStr ''100'' \<and> current_price b = PNum 800)
        (snap_best_prices res)"
proof -
  have "\<forall>i \<in> set [offer 1000, offer 800]. well_typed i" by (simp add: offer_well_typed)
  from classify_total [OF this] obtain st res cur where
    c: "classify ''20250101'' ''2025-01-01T09:00:00'' [offer 1000, offer 800]
          = Inr (st, res, cur)"
    by blast
  note v = best_prices_view [OF c]
  note v1 = v [THEN conjunct1]
  note v2 = v [THEN conjunct2, THEN conjunct1]
  note v3 = v [THEN conjunct2, THEN conjunct2]
  have all: "\<forall>b \<in> set (snap_best_prices res).
      game_id b = PStr ''100'' \<and> current_price b = PNum 800"
  proof
    fix b
    assume "b \<in> set (snap_best_prices res)"
    with v2 obtain p where "current_price b = PNum p"
      and "is_lowest_price [offer 1000, offer 800] (game_id b) p" by blast
    then show "game_id b = PStr ''100'' \<and> current_price b = PNum 800"
      by (simp add: offer_lowest)
  qed
  from best_prices_count_le [OF c] have n: "best_prices_count res \<le> 200" by simp
  have "observes (offer 1000) (item_get (offer 1000) ''game_id'') 1000
      \<and> truthy (item_get (offer 1000) ''game_id'') \<and> best_prices_count res \<le> 200"
    using n by (simp add: offer_observes offer_game_id)
  moreover have "offer 1000 \<in> set [offer 1000, offer 800]" by simp
  ultimately have "item_get (offer 1000) ''game_id'' \<in> game_id ` set (snap_best_prices res)"
    using v3 by blast
  then have ne: "snap_best_prices res \<noteq> []" by auto
  have le: "length (snap_best_prices res) \<le> 1"
  proof (cases "snap_best_prices res")
    case Nil
    then show ?thesis by simp
  next
    case (Cons a as)
    show ?thesis
    proof (cases as)
      case Nil
      with Cons show ?thesis by simp
    next
      case (Cons b bs)
      with \<open>snap_best_prices res = a # as\<close> all have "game_id a = game_id b" by simp
      with Cons \<open>snap_best_prices res = a # as\<close> v1 show ?thesis by simp
    qed
  qed
  with ne have one: "length (snap_best_prices res) = 1"
    by (cases "snap_best_prices res") simp_all
  from all have "list_all (\<lambda>b. game_id b = PStr ''100'' \<and> current_price b = PNum 800)
        (snap_best_prices res)"
    by (simp add: list_all_iff)
  with c one show ?thesis by (intro exI conjI)
qed

subsection \<open>Records without \<open>game_id\<close> or title\<close>

text \<open>
  Claim C5, as the code has it. A record without \<open>game_id\<close> or without \<open>title_nm\<close>,
  its other fields having the types of the data model, is not raised as an error, and it
  is not rejected before the anomaly filter either: the filter runs on it as on any
  record, and it adds one to the scam tally exactly when the filter rejects it. When it
  passes the filter it is appended to \<open>current_sales\<close> exactly when it is on sale. A
  record without \<open>game_id\<close> is never stored in \<open>best_prices\<close>. There is no counter of
  shape errors.
\<close>

theorem missing_fields_processed:
  assumes wt: "well_typed item"
    and st: "sortable st"
    and miss: "item ''game_id'' = None \<or> item ''title_nm'' = None"
  shows "\<exists>scam st'.
           scam_filter item = Inr scam
         \<and> process_item tday item st = Inr st'
         \<and> skipped_scam st' = skipped_scam st + (if scam then 1 else 0)
         \<and> current_sales st' =
             (if \<not> scam \<and> on_sale tday (make_game_info item)
              then current_sales st @ [make_game_info item] else current_sales st)
         \<and> (item ''game_id'' = None \<longrightarrow> best_prices st' = best_prices st)"
proof -
  from scam_filter_total [OF wt] obtain scam where f: "scam_filter item = Inr scam" ..
  show ?thesis
  proof (cases scam)
    case True
    with f have "process_item tday item st = Inr (st\<lparr>skipped_scam := skipped_scam st + 1\<rparr>)"
      by (simp add: process_item_scam)
    with f True show ?thesis
      by (intro exI [of _ True] exI [of _ "st\<lparr>skipped_scam := skipped_scam st + 1\<rparr>"]) simp
  next
    case False
    from is_current_total [OF wt] obtain cur where
      c: "is_current tday (make_game_info item) = Inr cur" ..
    from is_new_best_total [OF wt st] obtain best where
      b: "is_new_best (best_prices st) (make_game_info item) = Inr best" ..
    from f False c b have p: "process_item tday item st
        = Inr (store st (make_game_info item) cur best)"
      by (simp add: process_item_keep bind_def)
    from c have cur: "cur \<longleftrightarrow> on_sale tday (make_game_info item)"
      using is_current_on_sale [of tday "make_game_info item"] by auto
    have "\<not> best" if "item ''game_id'' = None"
    proof -
      from that have "\<not> truthy (game_id (make_game_info item))"
        by (simp add: make_game_info_def item_get_def)
      from is_new_best_no_id [OF this] b show ?thesis by simp
    qed
    with f False p cur show ?thesis
      by (intro exI [of _ False] exI [of _ "store st (make_game_info item) cur best"]) simp
  qed
qed

text \<open>
  A record without \<open>game_id\<close> and title at 60 percent off, as the first record of a
  run: it passes the filter, is appended to \<open>current_sales\<close>, and leaves the scam tally
  and \<open>best_prices\<close> as they were.
\<close>

theorem missing_fields_processed_witness:
  "\<exists>st'. process_item ''20250101'' (nameless (3/5)) init_state = Inr st'
      \<and> scam_filter (nameless (3/5)) = Inr False
      \<and> skipped_scam st' = 0
      \<and> current_sales st' = [make_game_info (nameless (3/5))]
      \<and> best_prices st' = []"
proof -
  have m: "nameless (3/5) ''game_id'' = None \<or> nameless (3/5) ''title_nm'' = None"
    by (simp add: nameless_facts)
  from missing_fields_processed [OF nameless_facts(1) sortable_init m, of "''20250101''"]
  obtain scam st' where
    f: "scam_filter (nameless (3/5)) = Inr scam"
    and p: "process_item ''20250101'' (nameless (3/5)) init_state = Inr st'"
    and k: "skipped_scam st' = skipped_scam init_state + (if scam then 1 else 0)"
    and c: "current_sales st' =
       (if \<not> scam \<and> on_sale ''20250101'' (make_game_info (nameless (3/5)))
        then current_sales init_state @ [make_game_info (nameless (3/5))]
        else current_sales init_state)"
    and b: "nameless (3/5) ''game_id'' = None \<longrightarrow> best_prices st' = best_prices init_state"
    by (elim exE conjE)
  from f have scam: "\<not> scam" by (simp add: nameless_facts)
  have i: "skipped_scam init_state = 0" "current_sales init_state = []"
    "best_prices init_state = []"
    by (simp_all add: init_state_def)
  from k scam i have 1: "skipped_scam st' = 0" by simp
  from c scam i have 2: "current_sales st' = [make_game_info (nameless (3/5))]"
    by (simp add: nameless_facts)
  from b i have 3: "best_prices st' = []" by (simp add: nameless_facts)
  from p nameless_facts(4) 1 2 3 show ?thesis by (intro exI conjI)
qed

text \<open>
  Claim C5 as it is stated does not hold: the snapshot of a run over one record without
  \<open>game_id\<close> and title at 60 percent off lists that record in \<open>current_sales\<close> and in
  \<open>top_sales\<close>; and such a record at 320 percent off adds one to the scam tally.
\<close>

theorem record_without_id_and_title_is_listed:
  "nameless (3/5) ''game_id'' = None
 \<and> nameless (3/5) ''title_nm'' = None
 \<and> map_option snap_current_sales
       (snapshot_of ''20250101'' ''2025-01-01T09:00:00'' [nameless (3/5)])
     = Some [make_game_info (nameless (3/5))]
 \<and> map_option snap_top_sales
       (snapshot_of ''20250101'' ''2025-01-01T09:00:00'' [nameless (3/5)])
     = Some [make_game_info (nameless (3/5))]
 \<and> process_item ''20250101'' (nameless (16/5)) init_state
     = Inr (init_state\<lparr>skipped_scam := 1\<rparr>)"
proof -
  have "\<forall>i \<in> set [nameless (3/5)]. well_typed i" by (simp add: nameless_facts)
  from classify_total [OF this] obtain st res cur where
    c: "classify ''20250101'' ''2025-01-01T09:00:00'' [nameless (3/5)] = Inr (st, res, cur)"
    by blast
  have "py_ge (discount_key (make_game_info (nameless (3/5)))) (PNum (1/2)) = Inr True"
    by (simp add: nameless_facts)
  note s = single_record_snapshot [OF c nameless_facts(4) nameless_facts(6) this]
  from c have so: "snapshot_of ''20250101'' ''2025-01-01T09:00:00'' [nameless (3/5)] = Some res"
    by (simp add: snapshot_of_def)
  have 1: "map_option snap_current_sales
       (snapshot_of ''20250101'' ''2025-01-01T09:00:00'' [nameless (3/5)])
     = Some [make_game_info (nameless (3/5))]"
    unfolding so using s(1) by simp
  have 2: "map_option snap_top_sales
       (snapshot_of ''20250101'' ''2025-01-01T09:00:00'' [nameless (3/5)])
     = Some [make_game_info (nameless (3/5))]"
    unfolding so using s(2) by simp
  from nameless_facts(2) nameless_facts(3) 1 2 nameless_scam_step
  show ?thesis by (intro conjI)
qed

subsection \<open>Records with explicit nulls\<close>

text \<open>
  Claim C10, as the code has it. For a record whose discount rate and prices are
  numbers: with an explicit null in \<open>sale_cn\<close> the filter raises \<open>TypeError\<close> (the
  comparison of line 129) unless one of the first three rules rejects the record before,
  in which case it is skipped and counted like any rejected record; with a numeric
  \<open>sale_cn\<close> and an explicit null in \<open>title_nm\<close> the filter raises \<open>AttributeError\<close>
  (the call of line 134) unless one of the first four rules rejects the record before.
  An exception of the filter is an exception of the iteration, and it ends the
  classification of the whole run with that exception, whatever records follow.
\<close>

theorem null_fields_raise:
  assumes "py_or (item_get item ''discount_rt'') (PNum 0) = PNum d"
      and "py_or (item_get item ''full_price_va'') (PNum 0) = PNum orig"
      and "py_or (item_get item ''sale_price_va'') (PNum 0) = PNum cur"
  shows "(item ''sale_cn'' = Some PNone \<longrightarrow>
            scam_filter item =
              (if rejected_early d orig cur then Inr True else Inl TypeError))
       \<and> (item_get_default item ''sale_cn'' (PNum 0) = PNum cnt
          \<and> item ''title_nm'' = Some PNone \<longrightarrow>
            scam_filter item =
              (if rejected_early d orig cur \<or> (cnt < 3 \<and> d \<ge> 19/20) then Inr True
               else Inl AttributeError))
       \<and> (\<forall>e. scam_filter item = Inl e \<and> classify_loop tday pre init_state = Inr st1 \<longrightarrow>
            process_item tday item st1 = Inl e
          \<and> classify tday nw (pre @ item # post) = Inl e)"
  using assms
  by (auto simp only: scam_filter_null_sale_cn scam_filter_null_title
      intro: process_item_raises classify_aborts)

text \<open>
  A record at half price with null \<open>title_nm\<close> and \<open>sale_cn\<close> raises \<open>TypeError\<close>; with
  a sale count of 10 instead it raises \<open>AttributeError\<close>; and a run in which it stands
  between two good records ends with \<open>TypeError\<close>.
\<close>

theorem null_fields_raise_witness:
  "scam_filter (with_nulls (1/2)) = Inl TypeError
 \<and> scam_filter ((with_nulls (1/2))(''sale_cn'' \<mapsto> PNum 10)) = Inl AttributeError
 \<and> classify ''20250101'' ''2025-01-01T09:00:00''
       ([half_price 1] @ with_nulls (1/2) # [half_price 2]) = Inl TypeError"
proof -
  have f: "py_or (item_get (with_nulls (1/2)) ''discount_rt'') (PNum 0) = PNum (1/2)"
    "py_or (item_get (with_nulls (1/2)) ''full_price_va'') (PNum 0) = PNum 10000"
    "py_or (item_get (with_nulls (1/2)) ''sale_price_va'') (PNum 0) = PNum 4000"
    by (simp_all add: with_nulls_fields)
  note t = null_fields_raise [OF f]
  have r: "\<not> rejected_early (1/2) 10000 4000" by (simp add: rejected_early_def)
  from t [THEN conjunct1] r have 1: "scam_filter (with_nulls (1/2)) = Inl TypeError"
    by (simp add: with_nulls_fields)
  have g: "py_or (item_get ((with_nulls (1/2))(''sale_cn'' \<mapsto> PNum 10)) ''discount_rt'') (PNum 0)
        = PNum (1/2)"
    "py_or (item_get ((with_nulls (1/2))(''sale_cn'' \<mapsto> PNum 10)) ''full_price_va'') (PNum 0)
        = PNum 10000"
    "py_or (item_get ((with_nulls (1/2))(''sale_cn'' \<mapsto> PNum 10)) ''sale_price_va'') (PNum 0)
        = PNum 4000"
    by (simp_all add: with_nulls_def item_get_def py_or_def)
  from null_fields_raise [OF g, THEN conjunct2, THEN conjunct1, of 10] r
  have 2: "scam_filter ((with_nulls (1/2))(''sale_cn'' \<mapsto> PNum 10)) = Inl AttributeError"
    by (simp add: with_nulls_def item_get_default_def)
  have "\<forall>i \<in> set [half_price 1]. well_typed i" by (simp add: half_price_facts)
  from classify_loop_total [OF this sortable_init] obtain st1 where
    l: "classify_loop ''20250101'' [half_price 1] init_state = Inr st1" ..
  from t [THEN conjunct2, THEN conjunct2, of "''20250101''" "[half_price 1]" st1
      "''2025-01-01T09:00:00''" "[half_price 2]"] 1 l
  have 3: "classify ''20250101'' ''2025-01-01T09:00:00''
       ([half_price 1] @ with_nulls (1/2) # [half_price 2]) = Inl TypeError"
    by blast
  from 1 2 3 show ?thesis by (intro conjI)
qed

text \<open>
  Claim C10 as it is stated does not hold: a record with null \<open>title_nm\<close> and
  \<open>sale_cn\<close> at 320 percent off is rejected by the first rule; the filter returns
  without an exception and the iteration adds one to the scam tally.
\<close>

theorem null_fields_skipped_as_scam:
  "with_nulls (16/5) ''sale_cn'' = Some PNone
 \<and> with_nulls (16/5) ''title_nm'' = Some PNone
 \<and> scam_filter (with_nulls (16/5)) = Inr True
 \<and> process_item ''20250101'' (with_nulls (16/5)) init_state
     = Inr (init_state\<lparr>skipped_scam := 1\<rparr>)"
proof -
  have f: "py_or (item_get (with_nulls (16/5)) ''discount_rt'') (PNum 0) = PNum (16/5)"
    "py_or (item_get (with_nulls (16/5)) ''full_price_va'') (PNum 0) = PNum 10000"
    "py_or (item_get (with_nulls (16/5)) ''sale_price_va'') (PNum 0) = PNum 4000"
    by (simp_all add: with_nulls_fields)
  have "rejected_early (16/5) 10000 4000" by (simp add: rejected_early_def)
  with scam_filter_null_sale_cn [OF f with_nulls_fields(4)]
  have s: "scam_filter (with_nulls (16/5)) = Inr True" by simp
  have "skipped_scam init_state + 1 = 1" by (simp add: init_state_def)
  with process_item_scam [OF s, of "''20250101''" init_state]
  have "process_item ''20250101'' (with_nulls (16/5)) init_state
     = Inr (init_state\<lparr>skipped_scam := 1\<rparr>)" by (simp only:)
  with s with_nulls_fields(4) with_nulls_fields(5) show ?thesis by (intro conjI)
qed

end
